theory Spec2Isabelle
  imports Main "HOL-Library.Word"
begin

section \<open>Values, stream states and comparison outcomes\<close>

text \<open>
  The engine of \<^verbatim>\<open>stream-compare\<close> handles JavaScript values it never looks into:
  payloads read from the streams, arguments of recorded events, verdicts returned or
  thrown by the caller's comparison functions. They are modelled by one datatype.
  A number is an \<open>int\<close> here: the engine only tests a verdict for \<open>null\<close> and
  \<open>undefined\<close> and a payload for its type, so the numeric value never matters.
  \<open>JTypeError msg\<close> is a \<^verbatim>\<open>TypeError\<close> instance with message \<open>msg\<close>.
  The values of this type are plain ones; a returned promise is a \<open>thenable\<close>, below.
\<close>

type_synonym byte = "8 word"

datatype jsval =
    Undefined
  | Null
  | JBool bool
  | JNum int
  | JStr string
  | JBuf "byte list"
  | JArr "jsval list"
  | JObj "(string \<times> jsval) list"
  | JTypeError string

text \<open>
  The \<^verbatim>\<open>data\<close> property of a \<^verbatim>\<open>StreamState\<close> has the documented type
  \<^verbatim>\<open>Array|Buffer|string\<close> and is \<^verbatim>\<open>undefined\<close> until the first payload; the
  \<^verbatim>\<open>events\<close> property is an \<^verbatim>\<open>Array\<close>. The Array-like values that
  \<^verbatim>\<open>incrementalProp\<close> reads, slices and hands to the comparison function are:
\<close>

datatype seqv =
    Undef
  | Text string
  | Bytes "byte list"
  | Items "jsval list"

text \<open>JavaScript truthiness: \<^verbatim>\<open>undefined\<close> and the empty string are falsy, every
  Buffer and every Array (also the empty ones) is truthy.\<close>

fun truthy :: "seqv \<Rightarrow> bool" where
  "truthy Undef = False"
| "truthy (Text s) = (s \<noteq> [])"
| "truthy (Bytes b) = True"
| "truthy (Items xs) = True"

text \<open>\<^verbatim>\<open>v.length\<close>. The source reads it only behind a truthiness test, so the value
  at \<open>Undef\<close> is never used.\<close>

fun seq_len :: "seqv \<Rightarrow> nat" where
  "seq_len Undef = 0"
| "seq_len (Text s) = length s"
| "seq_len (Bytes b) = length b"
| "seq_len (Items xs) = length xs"

text \<open>\<^verbatim>\<open>v.slice(0, n)\<close> and \<^verbatim>\<open>v.slice(n)\<close>; on \<^verbatim>\<open>undefined\<close> the property
  access throws, which is \<open>None\<close> here.\<close>

fun slice_to :: "nat \<Rightarrow> seqv \<Rightarrow> seqv option" where
  "slice_to n Undef = None"
| "slice_to n (Text s) = Some (Text (take n s))"
| "slice_to n (Bytes b) = Some (Bytes (take n b))"
| "slice_to n (Items xs) = Some (Items (take n xs))"

fun slice_from :: "nat \<Rightarrow> seqv \<Rightarrow> seqv option" where
  "slice_from n Undef = None"
| "slice_from n (Text s) = Some (Text (drop n s))"
| "slice_from n (Bytes b) = Some (Bytes (drop n b))"
| "slice_from n (Items xs) = Some (Items (drop n xs))"

text \<open>The constructor \<^verbatim>\<open>StreamState\<close>: the four caller-visible fields.\<close>

record sstate =
  ended :: bool
  events :: "jsval list"
  data :: seqv
  totalDataLen :: nat

definition StreamState :: sstate where
  "StreamState = \<lparr> ended = False, events = [], data = Undef, totalDataLen = 0 \<rparr>"

text \<open>
  A comparison function may also return a thenable: an \<^verbatim>\<open>async\<close> function returns a
  promise. The engine never looks into it; \<^verbatim>\<open>resolve\<close> makes the promise of the
  comparison follow it. All that matters of a thenable is how it ends: it never settles, it
  is fulfilled with a value, or it is rejected with a value.
\<close>

datatype thenable = NeverSettles | FulfilsWith jsval | RejectsWith jsval

text \<open>A call of a caller-supplied function returns a plain value, returns a thenable, or
  throws a value. A thenable is neither \<^verbatim>\<open>null\<close> nor \<^verbatim>\<open>undefined\<close>.\<close>

datatype outcome = Return jsval | ReturnThenable thenable | Throw jsval

text \<open>A data or events comparison function, as \<^verbatim>\<open>makeIncremental\<close> takes it: it
  sees the two (possibly sliced) values. It is taken to be a function of its arguments
  that returns or throws.\<close>

type_synonym comparator = "seqv \<Rightarrow> seqv \<Rightarrow> outcome"

text \<open>A comparison function over the two states (\<^verbatim>\<open>options.compare\<close>,
  \<^verbatim>\<open>options.incremental\<close>): it may modify the states it is given.\<close>

type_synonym cmpfn = "sstate \<Rightarrow> sstate \<Rightarrow> outcome \<times> sstate \<times> sstate"

section \<open>The incremental reducer (lib/make-incremental.js)\<close>

datatype propName = PData | PEvents

fun get_prop :: "propName \<Rightarrow> sstate \<Rightarrow> seqv" where
  "get_prop PData s = data s"
| "get_prop PEvents s = Items (events s)"

text \<open>Assignment \<^verbatim>\<open>state[propName] = v\<close>. The only values assigned are slices of the
  property's own value, so for \<^verbatim>\<open>events\<close> the value is always an Array
  (lemma \<open>slice_from_Items\<close> below).\<close>

fun items_of :: "seqv \<Rightarrow> jsval list" where
  "items_of (Items xs) = xs"
| "items_of v = []"

fun set_prop :: "propName \<Rightarrow> seqv \<Rightarrow> sstate \<Rightarrow> sstate" where
  "set_prop PData v s = s\<lparr>data := v\<rparr>"
| "set_prop PEvents v s = s\<lparr>events := items_of v\<rparr>"

text \<open>\<^verbatim>\<open>(values && values.length !== 0) || state.ended\<close>\<close>

definition hasEvidence :: "seqv \<Rightarrow> bool \<Rightarrow> bool" where
  "hasEvidence values e = ((truthy values \<and> seq_len values \<noteq> 0) \<or> e)"

text \<open>\<^verbatim>\<open>Math.min(values1 ? values1.length : 0, values2 ? values2.length : 0)\<close>\<close>

definition minLen :: "seqv \<Rightarrow> seqv \<Rightarrow> nat" where
  "minLen values1 values2 =
     min (if truthy values1 then seq_len values1 else 0)
         (if truthy values2 then seq_len values2 else 0)"

definition sliceError :: jsval where
  "sliceError = JTypeError ''Cannot read properties of undefined (reading 'slice')''"

text \<open>The call of \<^verbatim>\<open>compare\<close> in the three-way branch of \<^verbatim>\<open>incrementalProp\<close>.\<close>

definition compareCall :: "sstate \<Rightarrow> sstate \<Rightarrow> propName \<Rightarrow> comparator \<Rightarrow> outcome" where
  "compareCall state1 state2 propName compare =
     (let values1 = get_prop propName state1;
          values2 = get_prop propName state2;
          n = minLen values1 values2
      in if (truthy values1 \<and> seq_len values1 > n) \<and> \<not> ended state2 then
           (case slice_to n values1 of
              None \<Rightarrow> Throw sliceError
            | Some v1 \<Rightarrow> compare v1 values2)
         else if (truthy values2 \<and> seq_len values2 > n) \<and> \<not> ended state1 then
           (case slice_to n values2 of
              None \<Rightarrow> Throw sliceError
            | Some v2 \<Rightarrow> compare values1 v2)
         else compare values1 values2)"

text \<open>\<^verbatim>\<open>result === null || result === undefined\<close>\<close>

definition nullish :: "jsval \<Rightarrow> bool" where
  "nullish v = (v = Null \<or> v = Undefined)"

text \<open>
  \<^verbatim>\<open>incrementalProp(state1, state2, propName, compare)\<close>. The result is the
  outcome together with the two states as the call leaves them. A throw of the
  comparison function leaves before the trimming; a returned thenable is a result that is
  neither \<^verbatim>\<open>null\<close> nor \<^verbatim>\<open>undefined\<close>, so nothing is trimmed.
\<close>

definition incrementalProp ::
  "sstate \<Rightarrow> sstate \<Rightarrow> propName \<Rightarrow> comparator \<Rightarrow> outcome \<times> sstate \<times> sstate" where
  "incrementalProp state1 state2 propName compare =
     (let values1 = get_prop propName state1;
          values2 = get_prop propName state2
      in if hasEvidence values1 (ended state1) \<and> hasEvidence values2 (ended state2) then
           (let n = minLen values1 values2 in
            case compareCall state1 state2 propName compare of
              Throw err \<Rightarrow> (Throw err, state1, state2)
            | ReturnThenable t \<Rightarrow> (ReturnThenable t, state1, state2)
            | Return result \<Rightarrow>
                if n > 0 \<and> nullish result then
                  (case slice_from n values1 of
                     None \<Rightarrow> (Throw sliceError, state1, state2)
                   | Some v1 \<Rightarrow>
                       (case slice_from n values2 of
                          None \<Rightarrow> (Throw sliceError, set_prop propName v1 state1, state2)
                        | Some v2 \<Rightarrow>
                            (Return result, set_prop propName v1 state1,
                             set_prop propName v2 state2)))
                else (Return result, state1, state2))
         else (Return Undefined, state1, state2))"

text \<open>
  The arguments of \<^verbatim>\<open>makeIncremental\<close> are optional and nullable functions:
  \<^verbatim>\<open>compareData && incrementalProp(...)\<close> is the argument itself when it is
  \<^verbatim>\<open>undefined\<close> or \<^verbatim>\<open>null\<close>.
\<close>

datatype cmparg = NoneUndefined | NoneNull | Fn comparator

fun andCall :: "cmparg \<Rightarrow> sstate \<Rightarrow> sstate \<Rightarrow> propName \<Rightarrow> outcome \<times> sstate \<times> sstate" where
  "andCall NoneUndefined state1 state2 propName = (Return Undefined, state1, state2)"
| "andCall NoneNull state1 state2 propName = (Return Null, state1, state2)"
| "andCall (Fn compare) state1 state2 propName = incrementalProp state1 state2 propName compare"

text \<open>
  \<^verbatim>\<open>makeIncremental(compareData, compareEvents)\<close> returns the function
  \<^verbatim>\<open>incremental(state1, state2)\<close>. Both \<^verbatim>\<open>const\<close> initialisers run in order;
  a throw in the first leaves the function before the second.
\<close>

definition makeIncremental :: "cmparg \<Rightarrow> cmparg \<Rightarrow> cmpfn" where
  "makeIncremental compareData compareEvents state1 state2 =
     (case andCall compareData state1 state2 PData of
        (Throw err, s1, s2) \<Rightarrow> (Throw err, s1, s2)
      | (Return dataResult, s1, s2) \<Rightarrow>
          (case andCall compareEvents s1 s2 PEvents of
             (Throw err, t1, t2) \<Rightarrow> (Throw err, t1, t2)
           | (Return eventsResult, t1, t2) \<Rightarrow>
               (if dataResult \<noteq> Null \<and> dataResult \<noteq> Undefined
                then Return dataResult else Return eventsResult, t1, t2)
           | (ReturnThenable eventsResult, t1, t2) \<Rightarrow>
               (if dataResult \<noteq> Null \<and> dataResult \<noteq> Undefined
                then Return dataResult else ReturnThenable eventsResult, t1, t2))
      | (ReturnThenable dataResult, s1, s2) \<Rightarrow>
          (case andCall compareEvents s1 s2 PEvents of
             (Throw err, t1, t2) \<Rightarrow> (Throw err, t1, t2)
           | (Return eventsResult, t1, t2) \<Rightarrow> (ReturnThenable dataResult, t1, t2)
           | (ReturnThenable eventsResult, t1, t2) \<Rightarrow> (ReturnThenable dataResult, t1, t2)))"

section \<open>The comparison engine (index.js)\<close>

datatype CompareType = CT_checkpoint | CT_incremental | CT_last

datatype ReadPolicy = RP_flowing | RP_least | RP_none

text \<open>
  The options as \<^verbatim>\<open>streamCompare\<close> holds them once it has merged the defaults and
  passed its validation: \<^verbatim>\<open>compare\<close> is a function (\<^verbatim>\<open>incremental\<close> when the
  caller gave none), \<^verbatim>\<open>incremental\<close> is a function or absent, the two event lists are
  arrays of names. \<open>optEvents\<close> is \<^verbatim>\<open>options.events\<close>.
\<close>

record options =
  abortOnError :: bool
  compare :: cmpfn
  delay :: int
  endEvents :: "string list"
  optEvents :: "string list"
  incremental :: "cmpfn option"
  objectMode :: bool
  readPolicy :: ReadPolicy

text \<open>
  The promise. It is pending until \<^verbatim>\<open>resolve\<close> or \<^verbatim>\<open>reject\<close> is called;
  later calls of the two have no effect. Resolved with a plain value it is fulfilled,
  rejected it is rejected; resolved with a thenable it follows that thenable, and is
  settled only when a later promise job takes over what the thenable has come to.
\<close>

datatype settlement = Pending | Fulfilled jsval | Rejected jsval | Following thenable


text \<open>What a promise that follows a thenable becomes.\<close>

fun adopt :: "thenable \<Rightarrow> settlement" where
  "adopt NeverSettles = Following NeverSettles"
| "adopt (FulfilsWith v) = Fulfilled v"
| "adopt (RejectsWith v) = Rejected v"

text \<open>The functions of the closure that are registered as listeners.
  \<open>Listener1 n\<close> is \<^verbatim>\<open>listeners1[n]\<close>; \<open>HandleData1\<close> is
  \<^verbatim>\<open>handleData.bind(stream1, state1)\<close>.\<close>

datatype handler =
    Listener1 string
  | Listener2 string
  | EndListener1
  | EndListener2
  | OnStreamError
  | ReadNext
  | ReadNextOnEnd
  | HandleData1
  | HandleData2

text \<open>
  A stream, as far as the engine uses one: the listeners registered on it, in the order
  of registration (event name, function, registered by \<^verbatim>\<open>once\<close>), and the chunks
  that successive calls of \<^verbatim>\<open>read()\<close> return before it returns \<^verbatim>\<open>null\<close>.
  The two streams of a comparison are two objects.
\<close>

type_synonym registration = "string \<times> handler \<times> bool"

record stream =
  registered :: "registration list"
  readable :: "jsval list"

datatype side = Stream1 | Stream2

text \<open>
  The variables of the closure of \<^verbatim>\<open>streamCompare\<close>. \<open>endedCount\<close> is the
  variable \<^verbatim>\<open>ended\<close>; \<open>listeners1\<close> holds the own keys of the object
  \<^verbatim>\<open>listeners1\<close> (the value at key \<open>n\<close> is \<open>Listener1 n\<close>; the order in
  which \<^verbatim>\<open>done\<close> visits the keys is immaterial, since each key has a registration
  of its own);
  \<open>postEndImmediate\<close> and \<open>postEndTimeout\<close> say whether that timer is pending;
  \<open>nextTick\<close> whether the \<^verbatim>\<open>process.nextTick(readNext)\<close> is still to run.
  \<open>compareCalls\<close> is not a variable of the source: it counts the calls of comparison
  functions made by \<^verbatim>\<open>doCompare\<close>.
\<close>

record engine =
  state1 :: sstate
  state2 :: sstate
  endedCount :: nat
  isDone :: bool
  promise :: settlement
  listeners1 :: "string list"
  listeners2 :: "string list"
  postEndImmediate :: bool
  postEndTimeout :: bool
  nextTick :: bool
  stream1 :: stream
  stream2 :: stream
  compareCalls :: nat

fun getState :: "side \<Rightarrow> engine \<Rightarrow> sstate" where
  "getState Stream1 e = state1 e"
| "getState Stream2 e = state2 e"

fun setState :: "side \<Rightarrow> sstate \<Rightarrow> engine \<Rightarrow> engine" where
  "setState Stream1 s e = e\<lparr>state1 := s\<rparr>"
| "setState Stream2 s e = e\<lparr>state2 := s\<rparr>"

fun getStream :: "side \<Rightarrow> engine \<Rightarrow> stream" where
  "getStream Stream1 e = stream1 e"
| "getStream Stream2 e = stream2 e"

fun setStream :: "side \<Rightarrow> stream \<Rightarrow> engine \<Rightarrow> engine" where
  "setStream Stream1 st e = e\<lparr>stream1 := st\<rparr>"
| "setStream Stream2 st e = e\<lparr>stream2 := st\<rparr>"

subsection \<open>The EventEmitter operations the engine calls\<close>

definition stream_on :: "string \<Rightarrow> handler \<Rightarrow> stream \<Rightarrow> stream" where
  "stream_on ev h st = st\<lparr>registered := registered st @ [(ev, h, False)]\<rparr>"

definition stream_once :: "string \<Rightarrow> handler \<Rightarrow> stream \<Rightarrow> stream" where
  "stream_once ev h st = st\<lparr>registered := registered st @ [(ev, h, True)]\<rparr>"

fun removeFirst :: "('a \<Rightarrow> bool) \<Rightarrow> 'a list \<Rightarrow> 'a list" where
  "removeFirst P [] = []"
| "removeFirst P (x # xs) = (if P x then xs else x # removeFirst P xs)"

text \<open>\<^verbatim>\<open>removeListener\<close> removes one registration of the function for the event,
  the most recently added one.\<close>

definition removeListener :: "string \<Rightarrow> handler \<Rightarrow> stream \<Rightarrow> stream" where
  "removeListener ev h st =
     st\<lparr>registered := rev (removeFirst (\<lambda>r. fst r = ev \<and> fst (snd r) = h) (rev (registered st)))\<rparr>"

text \<open>\<^verbatim>\<open>stream.read()\<close>: the next chunk, or \<^verbatim>\<open>null\<close> when none is buffered.\<close>

definition stream_read :: "stream \<Rightarrow> jsval \<times> stream" where
  "stream_read st =
     (case readable st of
        [] \<Rightarrow> (Null, st)
      | chunk # rest \<Rightarrow> (chunk, st\<lparr>readable := rest\<rparr>))"

subsection \<open>Settlement\<close>

text \<open>\<^verbatim>\<open>resolve(result)\<close> of the promise, for a plain value and for a thenable, and
  \<^verbatim>\<open>reject(err)\<close>, which takes over nothing.\<close>

definition resolve :: "jsval \<Rightarrow> engine \<Rightarrow> engine" where
  "resolve v e = (if promise e = Pending then e\<lparr>promise := Fulfilled v\<rparr> else e)"

definition resolveThenable :: "thenable \<Rightarrow> engine \<Rightarrow> engine" where
  "resolveThenable t e = (if promise e = Pending then e\<lparr>promise := Following t\<rparr> else e)"

definition reject :: "jsval \<Rightarrow> engine \<Rightarrow> engine" where
  "reject v e = (if promise e = Pending then e\<lparr>promise := Rejected v\<rparr> else e)"

text \<open>The removals that \<^verbatim>\<open>done\<close> makes on one stream, in the order of the source.\<close>

definition unregister ::
  "string list \<Rightarrow> (string \<Rightarrow> handler) \<Rightarrow> handler \<Rightarrow> string list \<Rightarrow> stream \<Rightarrow> stream" where
  "unregister keys listenerOf endListenerN endEvs st =
     (let st = foldl (\<lambda>st eventName. removeListener eventName (listenerOf eventName) st) st keys;
          st = removeListener ''readable'' ReadNext st;
          st = removeListener ''error'' OnStreamError st;
          st = removeListener ''end'' ReadNextOnEnd st
      in foldl (\<lambda>st eventName. removeListener eventName endListenerN st) st endEvs)"

text \<open>The function \<^verbatim>\<open>done\<close> of the source.\<close>

definition done_fn :: "options \<Rightarrow> engine \<Rightarrow> engine" where
  "done_fn opts e =
     e\<lparr>isDone := True,
       stream1 := unregister (listeners1 e) Listener1 EndListener1 (endEvents opts) (stream1 e),
       stream2 := unregister (listeners2 e) Listener2 EndListener2 (endEvents opts) (stream2 e),
       postEndImmediate := False,
       postEndTimeout := False\<rparr>"

definition onStreamError :: "options \<Rightarrow> jsval \<Rightarrow> engine \<Rightarrow> engine" where
  "onStreamError opts err e = done_fn opts (reject err e)"

text \<open>\<^verbatim>\<open>doCompare(compareFn, type)\<close>: the returned boolean and the closure after
  the call. What the comparison function did to the states before it returned or threw
  stays done.\<close>

definition doCompare :: "options \<Rightarrow> cmpfn \<Rightarrow> CompareType \<Rightarrow> engine \<Rightarrow> bool \<times> engine" where
  "doCompare opts compareFn type e =
     (case compareFn (state1 e) (state2 e) of
        (out, s1, s2) \<Rightarrow>
          (let e = e\<lparr>state1 := s1, state2 := s2, compareCalls := compareCalls e + 1\<rparr> in
           case out of
             Return result \<Rightarrow>
               if result \<noteq> Undefined \<and> result \<noteq> Null then
                 (True, done_fn opts (resolve result e))
               else if type = CT_last then
                 (True, done_fn opts (resolve Undefined e))
               else (False, e)
           | ReturnThenable t \<Rightarrow> (True, done_fn opts (resolveThenable t e))
           | Throw err \<Rightarrow> (True, done_fn opts (reject err e))))"

definition promise_checkpoint :: "options \<Rightarrow> engine \<Rightarrow> engine" where
  "promise_checkpoint opts e =
     (if isDone e then e else snd (doCompare opts (compare opts) CT_checkpoint e))"

definition promise_end :: "options \<Rightarrow> engine \<Rightarrow> engine" where
  "promise_end opts e =
     (if isDone e then e else snd (doCompare opts (compare opts) CT_last e))"

subsection \<open>Event recording and end tracking\<close>

definition eventObject :: "string \<Rightarrow> jsval list \<Rightarrow> jsval" where
  "eventObject eventName args = JObj [(''name'', JStr eventName), (''args'', JArr args)]"

text \<open>The function \<^verbatim>\<open>listener\<close> made for one event name, applied to the state of
  the given side.\<close>

definition listener :: "options \<Rightarrow> side \<Rightarrow> string \<Rightarrow> jsval list \<Rightarrow> engine \<Rightarrow> engine" where
  "listener opts sd eventName args e =
     (let s = getState sd e;
          e = setState sd (s\<lparr>events := events s @ [eventObject eventName args]\<rparr>) e
      in case incremental opts of
           Some inc \<Rightarrow> snd (doCompare opts inc CT_incremental e)
         | None \<Rightarrow> e)"

definition postEndCompare :: "options \<Rightarrow> engine \<Rightarrow> engine" where
  "postEndCompare opts e = snd (doCompare opts (compare opts) CT_last e)"

text \<open>The tail of \<^verbatim>\<open>endListener\<close>: \<^verbatim>\<open>if (ended === 2)\<close> and the timer it sets.\<close>

definition schedulePostEnd :: "options \<Rightarrow> engine \<Rightarrow> engine" where
  "schedulePostEnd opts e =
     (if endedCount e = 2 then
        (if delay opts \<noteq> 0 then e\<lparr>postEndTimeout := True\<rparr>
         else e\<lparr>postEndImmediate := True\<rparr>)
      else e)"

definition endListener :: "options \<Rightarrow> side \<Rightarrow> engine \<Rightarrow> engine" where
  "endListener opts sd e =
     (if ended (getState sd e) \<or> isDone e then e
      else
        (let e = setState sd ((getState sd e)\<lparr>ended := True\<rparr>) e;
             e = e\<lparr>endedCount := endedCount e + 1\<rparr>
         in case incremental opts of
              Some inc \<Rightarrow>
                (case doCompare opts inc CT_incremental e of
                   (True, e') \<Rightarrow> e'
                 | (False, e') \<Rightarrow> schedulePostEnd opts e')
            | None \<Rightarrow> schedulePostEnd opts e))"

subsection \<open>The data accumulator\<close>

text \<open>\<^verbatim>\<open>Object.prototype.toString.call(v)\<close>, for the messages of the two errors.\<close>

fun toStringTag :: "jsval \<Rightarrow> string" where
  "toStringTag Undefined = ''[object Undefined]''"
| "toStringTag Null = ''[object Null]''"
| "toStringTag (JBool b) = ''[object Boolean]''"
| "toStringTag (JNum n) = ''[object Number]''"
| "toStringTag (JStr s) = ''[object String]''"
| "toStringTag (JBuf b) = ''[object Uint8Array]''"
| "toStringTag (JArr xs) = ''[object Array]''"
| "toStringTag (JObj ps) = ''[object Object]''"
| "toStringTag (JTypeError m) = ''[object Error]''"

fun toStringTagSeq :: "seqv \<Rightarrow> string" where
  "toStringTagSeq Undef = ''[object Undefined]''"
| "toStringTagSeq (Text s) = ''[object String]''"
| "toStringTagSeq (Bytes b) = ''[object Uint8Array]''"
| "toStringTagSeq (Items xs) = ''[object Array]''"

definition expectedError :: "jsval \<Rightarrow> jsval" where
  "expectedError chunk =
     JTypeError (''expected string or Buffer, got '' @ toStringTag chunk @ ''.  Need objectMode?'')"

definition mixedError :: "jsval \<Rightarrow> seqv \<Rightarrow> jsval" where
  "mixedError chunk old =
     JTypeError (''read returned '' @ toStringTag chunk @ '', previously '' @
                 toStringTagSeq old @ ''.  Need objectMode?'')"

definition pushError :: jsval where
  "pushError = JTypeError ''this.data.push is not a function''"

text \<open>
  \<^verbatim>\<open>addData.call(state, data)\<close>: the state after the call, or the error thrown.
  Every \<^verbatim>\<open>throw\<close> of the source comes before any assignment, and so does the failing
  call of \<^verbatim>\<open>push\<close> on a value that is not an Array.
\<close>

fun addData :: "options \<Rightarrow> jsval \<Rightarrow> sstate \<Rightarrow> jsval + sstate" where
  "addData opts chunk s =
     (if objectMode opts then
        (if \<not> truthy (data s) then
           Inr (s\<lparr>data := Items [chunk], totalDataLen := totalDataLen s + 1\<rparr>)
         else
           (case data s of
              Items xs \<Rightarrow> Inr (s\<lparr>data := Items (xs @ [chunk]), totalDataLen := totalDataLen s + 1\<rparr>)
            | _ \<Rightarrow> Inl pushError))
      else
        (case chunk of
           JStr str \<Rightarrow>
             (case data s of
                Undef \<Rightarrow> Inr (s\<lparr>data := Text str, totalDataLen := totalDataLen s + length str\<rparr>)
              | Text old \<Rightarrow>
                  Inr (s\<lparr>data := (if length old = 0 then Text str
                                   else if length str > 0 then Text (old @ str)
                                   else Text old),
                         totalDataLen := totalDataLen s + length str\<rparr>)
              | _ \<Rightarrow> Inl (mixedError chunk (data s)))
         | JBuf buf \<Rightarrow>
             (case data s of
                Undef \<Rightarrow> Inr (s\<lparr>data := Bytes buf, totalDataLen := totalDataLen s + length buf\<rparr>)
              | Bytes old \<Rightarrow>
                  Inr (s\<lparr>data := (if length old = 0 then Bytes buf
                                   else if length buf > 0 then Bytes (old @ buf)
                                   else Bytes old),
                         totalDataLen := totalDataLen s + length buf\<rparr>)
              | _ \<Rightarrow> Inl (mixedError chunk (data s)))
         | _ \<Rightarrow> Inl (expectedError chunk)))"

text \<open>\<^verbatim>\<open>typeof data === 'string' || data instanceof Buffer\<close>, and
  \<^verbatim>\<open>data.length\<close> of such a payload.\<close>

definition isStringOrBuffer :: "jsval \<Rightarrow> bool" where
  "isStringOrBuffer chunk = (case chunk of JStr s \<Rightarrow> True | JBuf b \<Rightarrow> True | _ \<Rightarrow> False)"

fun chunkLength :: "jsval \<Rightarrow> nat" where
  "chunkLength (JStr s) = length s"
| "chunkLength (JBuf b) = length b"
| "chunkLength v = 0"

definition handleData :: "options \<Rightarrow> side \<Rightarrow> jsval \<Rightarrow> engine \<Rightarrow> engine" where
  "handleData opts sd chunk e =
     (case addData opts chunk (getState sd e) of
        Inl err \<Rightarrow> done_fn opts (reject err e)
      | Inr s \<Rightarrow>
          (let e = setState sd s e in
           case incremental opts of
             Some inc \<Rightarrow> snd (doCompare opts inc CT_incremental e)
           | None \<Rightarrow> e))"

subsection \<open>The read scheduler of policy \<^verbatim>\<open>least\<close>\<close>

text \<open>The choice at the head of the loop of \<^verbatim>\<open>readNext\<close>; \<open>None\<close> is the branch
  that returns because all streams have ended.\<close>

definition pickStream :: "sstate \<Rightarrow> sstate \<Rightarrow> side option" where
  "pickStream s1 s2 =
     (if \<not> ended s1 \<and> (ended s2 \<or> totalDataLen s1 \<le> totalDataLen s2) then Some Stream1
      else if \<not> ended s2 then Some Stream2
      else None)"

definition pendingReads :: "engine \<Rightarrow> nat" where
  "pendingReads e = length (readable (stream1 e)) + length (readable (stream2 e))"

text \<open>Nothing the loop body calls touches what the streams have buffered; this is what
  makes the loop end.\<close>

lemma readable_removeListener [simp]: "readable (removeListener ev h st) = readable st"
  by (simp add: removeListener_def)

lemma readable_foldl_removeListener [simp]:
  "readable (foldl (\<lambda>st ev. removeListener ev (f ev) st) st evs) = readable st"
  by (induction evs arbitrary: st) simp_all

lemma readable_unregister [simp]: "readable (unregister ks f h evs st) = readable st"
  by (simp add: unregister_def Let_def)

lemma pendingReads_done_fn [simp]: "pendingReads (done_fn opts e) = pendingReads e"
  by (simp add: done_fn_def pendingReads_def)

lemma pendingReads_resolve [simp]: "pendingReads (resolve v e) = pendingReads e"
  by (simp add: resolve_def pendingReads_def)

lemma pendingReads_resolveThenable [simp]:
  "pendingReads (resolveThenable t e) = pendingReads e"
  by (simp add: resolveThenable_def pendingReads_def)

lemma pendingReads_reject [simp]: "pendingReads (reject v e) = pendingReads e"
  by (simp add: reject_def pendingReads_def)

lemma pendingReads_doCompare [simp]:
  "pendingReads (snd (doCompare opts f ty e)) = pendingReads e"
  by (auto simp: doCompare_def Let_def
        pendingReads_def[of "_\<lparr>state1 := _, state2 := _, compareCalls := _\<rparr>"]
        pendingReads_def[of e] split: prod.splits outcome.splits)

lemma pendingReads_setState [simp]: "pendingReads (setState sd s e) = pendingReads e"
  by (cases sd) (simp_all add: pendingReads_def)

lemma pendingReads_handleData [simp]:
  "pendingReads (handleData opts sd chunk e) = pendingReads e"
  by (simp add: handleData_def Let_def split: sum.splits option.splits)

lemma pendingReads_read:
  "stream_read (getStream sd e) = (chunk, st) \<Longrightarrow> chunk \<noteq> Null \<Longrightarrow>
   pendingReads (setStream sd st e) < pendingReads e"
  by (cases sd) (auto simp: stream_read_def pendingReads_def split: list.splits)

text \<open>The loop \<^verbatim>\<open>while (!isDone)\<close> of \<^verbatim>\<open>readNext\<close>.\<close>

function readNext :: "options \<Rightarrow> engine \<Rightarrow> engine" where
  "readNext opts e =
     (if isDone e then e
      else
        (case pickStream (state1 e) (state2 e) of
           None \<Rightarrow> e
         | Some sd \<Rightarrow>
             (case stream_read (getStream sd e) of
                (chunk, st) \<Rightarrow>
                  if chunk = Null then
                    setStream sd (stream_once ''readable'' ReadNext st) e
                  else readNext opts (handleData opts sd chunk (setStream sd st e)))))"
  by pat_completeness auto
termination
  by (relation "measure (\<lambda>(opts, e). pendingReads e)") (auto simp: pendingReads_read[OF sym])

declare readNext.simps [simp del]

definition readNextOnEnd :: "options \<Rightarrow> engine \<Rightarrow> engine" where
  "readNextOnEnd opts e =
     readNext opts
       (e\<lparr>stream1 := removeListener ''readable'' ReadNext (stream1 e),
          stream2 := removeListener ''readable'' ReadNext (stream2 e)\<rparr>)"

subsection \<open>The wiring done by \<^verbatim>\<open>streamCompare\<close>\<close>

text \<open>\<^verbatim>\<open>listeners1\<close> is created as \<^verbatim>\<open>{}\<close>, so \<^verbatim>\<open>listeners1[eventName]\<close> is also
  truthy at the names it inherits from \<^verbatim>\<open>Object.prototype\<close>.\<close>

definition objectProtoKeys :: "string list" where
  "objectProtoKeys =
     [''constructor'', ''__defineGetter__'', ''__defineSetter__'', ''hasOwnProperty'',
      ''__lookupGetter__'', ''__lookupSetter__'', ''isPrototypeOf'', ''propertyIsEnumerable'',
      ''toString'', ''valueOf'', ''__proto__'', ''toLocaleString'']"

text \<open>The body of \<^verbatim>\<open>options.events.forEach\<close>.\<close>

definition registerEvent :: "options \<Rightarrow> engine \<Rightarrow> string \<Rightarrow> engine" where
  "registerEvent opts e eventName =
     (if eventName \<in> set (listeners1 e) \<or> eventName \<in> set objectProtoKeys then e
      else if abortOnError opts \<and> eventName = ''error'' then e
      else e\<lparr>listeners1 := listeners1 e @ [eventName],
             stream1 := stream_on eventName (Listener1 eventName) (stream1 e),
             listeners2 := listeners2 e @ [eventName],
             stream2 := stream_on eventName (Listener2 eventName) (stream2 e)\<rparr>)"

text \<open>The body of \<^verbatim>\<open>options.endEvents.forEach\<close>.\<close>

definition registerEnd :: "options \<Rightarrow> engine \<Rightarrow> string \<Rightarrow> engine" where
  "registerEnd opts e eventName =
     (if \<not> abortOnError opts \<or> eventName \<noteq> ''error'' then
        e\<lparr>stream1 := stream_on eventName EndListener1 (stream1 e),
          stream2 := stream_on eventName EndListener2 (stream2 e)\<rparr>
      else e)"

definition registerAbort :: "options \<Rightarrow> engine \<Rightarrow> engine" where
  "registerAbort opts e =
     (if abortOnError opts then
        e\<lparr>stream1 := stream_once ''error'' OnStreamError (stream1 e),
          stream2 := stream_once ''error'' OnStreamError (stream2 e)\<rparr>
      else e)"

text \<open>The \<^verbatim>\<open>switch (options.readPolicy)\<close>.\<close>

definition registerReads :: "options \<Rightarrow> engine \<Rightarrow> engine" where
  "registerReads opts e =
     (case readPolicy opts of
        RP_flowing \<Rightarrow>
          e\<lparr>stream1 := stream_on ''data'' HandleData1 (stream1 e),
            stream2 := stream_on ''data'' HandleData2 (stream2 e)\<rparr>
      | RP_least \<Rightarrow>
          e\<lparr>stream1 := stream_once ''end'' ReadNextOnEnd (stream1 e),
            stream2 := stream_once ''end'' ReadNextOnEnd (stream2 e),
            nextTick := True\<rparr>
      | RP_none \<Rightarrow> e)"

text \<open>The closure right after \<^verbatim>\<open>streamCompare\<close> has returned the promise, for two
  streams that have the given chunks buffered. Listeners of other parties on the streams
  are not part of the model.\<close>

definition newEngine :: "jsval list \<Rightarrow> jsval list \<Rightarrow> engine" where
  "newEngine buffered1 buffered2 =
     \<lparr> state1 = StreamState, state2 = StreamState, endedCount = 0, isDone = False,
       promise = Pending, listeners1 = [], listeners2 = [],
       postEndImmediate = False, postEndTimeout = False, nextTick = False,
       stream1 = \<lparr> registered = [], readable = buffered1 \<rparr>,
       stream2 = \<lparr> registered = [], readable = buffered2 \<rparr>,
       compareCalls = 0 \<rparr>"

definition streamCompare :: "options \<Rightarrow> jsval list \<Rightarrow> jsval list \<Rightarrow> engine" where
  "streamCompare opts buffered1 buffered2 =
     registerReads opts
       (registerAbort opts
          (foldl (registerEnd opts)
             (foldl (registerEvent opts) (newEngine buffered1 buffered2) (optEvents opts))
             (endEvents opts)))"

subsection \<open>Events, timers and the caller, as the event loop delivers them\<close>

fun arg0 :: "jsval list \<Rightarrow> jsval" where
  "arg0 [] = Undefined"
| "arg0 (x # xs) = x"

fun runHandler :: "options \<Rightarrow> handler \<Rightarrow> jsval list \<Rightarrow> engine \<Rightarrow> engine" where
  "runHandler opts (Listener1 eventName) args e = listener opts Stream1 eventName args e"
| "runHandler opts (Listener2 eventName) args e = listener opts Stream2 eventName args e"
| "runHandler opts EndListener1 args e = endListener opts Stream1 e"
| "runHandler opts EndListener2 args e = endListener opts Stream2 e"
| "runHandler opts OnStreamError args e = onStreamError opts (arg0 args) e"
| "runHandler opts ReadNext args e = readNext opts e"
| "runHandler opts ReadNextOnEnd args e = readNextOnEnd opts e"
| "runHandler opts HandleData1 args e = handleData opts Stream1 (arg0 args) e"
| "runHandler opts HandleData2 args e = handleData opts Stream2 (arg0 args) e"

text \<open>
  One listener call within \<^verbatim>\<open>emit\<close>. A listener registered by \<^verbatim>\<open>once\<close> removes
  its registration and then runs.
\<close>

definition invoke :: "options \<Rightarrow> side \<Rightarrow> jsval list \<Rightarrow> engine \<Rightarrow> registration \<Rightarrow> engine" where
  "invoke opts sd args e r =
     (case r of
        (ev, h, once) \<Rightarrow>
          runHandler opts h args
            (if once then setStream sd (removeListener ev h (getStream sd e)) e else e))"

text \<open>
  \<^verbatim>\<open>stream.emit(ev, ...args)\<close>: the listeners registered for the event when the
  emit starts are called in the order of registration. As the comment in
  \<^verbatim>\<open>endListener\<close> says, removing a listener does not affect an emit already in
  progress.
\<close>

definition emit :: "options \<Rightarrow> side \<Rightarrow> string \<Rightarrow> jsval list \<Rightarrow> engine \<Rightarrow> engine" where
  "emit opts sd ev args e =
     foldl (invoke opts sd args) e (filter (\<lambda>r. fst r = ev) (registered (getStream sd e)))"

text \<open>
  What can happen to a comparison: a stream emits an event; a stream buffers a chunk
  for \<^verbatim>\<open>read()\<close>; the caller calls \<^verbatim>\<open>checkpoint()\<close> or \<^verbatim>\<open>end()\<close>; the
  \<^verbatim>\<open>nextTick\<close> callback or one of the two post-end timers runs; the promise job
  runs in which a promise that follows a thenable takes over its state. Each of them runs
  to completion before the next, as on the event loop: a listener or a comparison function
  does not itself emit events on the streams or call \<^verbatim>\<open>checkpoint()\<close> or
  \<^verbatim>\<open>end()\<close>.
\<close>

datatype action =
    Emit side string "jsval list"
  | Buffer side jsval
  | Checkpoint
  | End
  | NextTick
  | Immediate
  | Timeout
  | PromiseJob

fun step :: "options \<Rightarrow> action \<Rightarrow> engine \<Rightarrow> engine" where
  "step opts (Emit sd ev args) e = emit opts sd ev args e"
| "step opts (Buffer sd chunk) e =
     setStream sd ((getStream sd e)\<lparr>readable := readable (getStream sd e) @ [chunk]\<rparr>) e"
| "step opts Checkpoint e = promise_checkpoint opts e"
| "step opts End e = promise_end opts e"
| "step opts NextTick e =
     (if nextTick e then readNext opts (e\<lparr>nextTick := False\<rparr>) else e)"
| "step opts Immediate e =
     (if postEndImmediate e then postEndCompare opts (e\<lparr>postEndImmediate := False\<rparr>) else e)"
| "step opts Timeout e =
     (if postEndTimeout e then postEndCompare opts (e\<lparr>postEndTimeout := False\<rparr>) else e)"
| "step opts PromiseJob e =
     (case promise e of
        Following t \<Rightarrow> e\<lparr>promise := adopt t\<rparr>
      | _ \<Rightarrow> e)"

definition run :: "options \<Rightarrow> action list \<Rightarrow> engine \<Rightarrow> engine" where
  "run opts acts e = foldl (\<lambda>e a. step opts a e) e acts"

inductive reachable :: "options \<Rightarrow> engine \<Rightarrow> bool" for opts :: options where
  reach_start: "reachable opts (streamCompare opts buffered1 buffered2)"
| reach_step: "reachable opts e \<Longrightarrow> reachable opts (step opts a e)"

section \<open>What the wiring guarantees\<close>

text \<open>
  The conditions below hold of the closure when \<^verbatim>\<open>streamCompare\<close> returns and after
  everything that can happen to it then; they are what the properties of whole runs rest on.
\<close>

fun isListener :: "handler \<Rightarrow> bool" where
  "isListener (Listener1 n) = True"
| "isListener (Listener2 n) = True"
| "isListener h = False"

fun isHandleData :: "handler \<Rightarrow> bool" where
  "isHandleData HandleData1 = True"
| "isHandleData HandleData2 = True"
| "isHandleData h = False"

text \<open>The registrations for the event \<^verbatim>\<open>error\<close>, and those of the event recorder.\<close>

definition errorRegs :: "stream \<Rightarrow> registration list" where
  "errorRegs st = filter (\<lambda>r. fst r = ''error'') (registered st)"

definition listenerRegs :: "stream \<Rightarrow> registration list" where
  "listenerRegs st = filter (\<lambda>r. isListener (fst (snd r))) (registered st)"

text \<open>The only registrations made by \<^verbatim>\<open>once\<close>.\<close>

definition onceOK :: "registration \<Rightarrow> bool" where
  "onceOK r =
     (snd (snd r) \<longrightarrow>
        (fst r, fst (snd r)) \<in>
          {(''error'', OnStreamError), (''readable'', ReadNext), (''end'', ReadNextOnEnd)})"

text \<open>
  One stream: the recorder is registered exactly once for each key of the listeners object
  until the comparison is done and not at all afterwards; \<^verbatim>\<open>handleData\<close> is registered
  under the read policy \<^verbatim>\<open>flowing\<close> only.
\<close>

definition streamOK ::
  "options \<Rightarrow> (string \<Rightarrow> handler) \<Rightarrow> string list \<Rightarrow> bool \<Rightarrow> stream \<Rightarrow> bool" where
  "streamOK opts listenerOf keys dn st =
     (distinct keys \<and>
      listenerRegs st = (if dn then [] else map (\<lambda>n. (n, listenerOf n, False)) keys) \<and>
      (readPolicy opts \<noteq> RP_flowing \<longrightarrow>
         (\<forall>r \<in> set (registered st). \<not> isHandleData (fst (snd r)))) \<and>
      (\<forall>r \<in> set (registered st). onceOK r))"

definition tablesOK :: "options \<Rightarrow> engine \<Rightarrow> bool" where
  "tablesOK opts e =
     (streamOK opts Listener1 (listeners1 e) (isDone e) (stream1 e) \<and>
      streamOK opts Listener2 (listeners2 e) (isDone e) (stream2 e))"

text \<open>Under \<^verbatim>\<open>abortOnError\<close> the one listener for \<^verbatim>\<open>error\<close> is
  \<^verbatim>\<open>onStreamError\<close>.\<close>

definition abortArmed :: "stream \<Rightarrow> bool" where
  "abortArmed st = (errorRegs st = [(''error'', OnStreamError, True)])"

text \<open>
  The closure is well wired: the tables are as above, the comparison is done exactly when
  the promise is no longer pending (it is settled, or follows a thenable), the abort
  listener is in place while the comparison runs, and no post-end timer is pending once it
  is done.
\<close>

definition wired :: "options \<Rightarrow> engine \<Rightarrow> bool" where
  "wired opts e =
     (tablesOK opts e \<and>
      (isDone e \<longleftrightarrow> promise e \<noteq> Pending) \<and>
      (abortOnError opts \<and> \<not> isDone e \<longrightarrow> abortArmed (stream1 e) \<and> abortArmed (stream2 e)) \<and>
      (isDone e \<longrightarrow> \<not> postEndImmediate e \<and> \<not> postEndTimeout e))"

text \<open>What holds while \<^verbatim>\<open>streamCompare\<close> is still registering the recorders and
  the end listeners.\<close>

definition baseWired :: "options \<Rightarrow> engine \<Rightarrow> bool" where
  "baseWired opts e =
     (\<not> isDone e \<and> promise e = Pending \<and> \<not> postEndImmediate e \<and> \<not> postEndTimeout e \<and>
      listeners2 e = listeners1 e \<and> distinct (listeners1 e) \<and>
      listenerRegs (stream1 e) = map (\<lambda>n. (n, Listener1 n, False)) (listeners1 e) \<and>
      listenerRegs (stream2 e) = map (\<lambda>n. (n, Listener2 n, False)) (listeners1 e) \<and>
      (\<forall>r \<in> set (registered (stream1 e)) \<union> set (registered (stream2 e)).
         \<not> snd (snd r) \<and> \<not> isHandleData (fst (snd r)) \<and>
         (abortOnError opts \<longrightarrow> fst r \<noteq> ''error'')))"

section \<open>Concrete inputs\<close>

text \<open>A comparison in the style of \<^verbatim>\<open>assert.deepStrictEqual\<close>: it returns
  \<^verbatim>\<open>undefined\<close> on equal arguments and throws otherwise.\<close>

definition cmpStrictEqual :: comparator where
  "cmpStrictEqual a b = (if a = b then Return Undefined else Throw (JStr ''not equal''))"

text \<open>A comparison that returns its verdict, here \<^verbatim>\<open>false\<close>, and one that throws.\<close>

definition cmpReturnFalse :: comparator where
  "cmpReturnFalse a b = Return (JBool False)"


definition stHello :: sstate where
  "stHello = \<lparr> ended = False, events = [eventObject ''close'' []],
               data = Text ''Hello'', totalDataLen = 5 \<rparr>"

definition stHel :: sstate where
  "stHel = \<lparr> ended = False, events = [eventObject ''close'' []],
             data = Text ''Hel'', totalDataLen = 3 \<rparr>"

text \<open>The two states after the first three characters have been compared and removed.\<close>

definition stLo :: sstate where
  "stLo = \<lparr> ended = False, events = [eventObject ''close'' []],
            data = Text ''lo'', totalDataLen = 5 \<rparr>"

definition stEmpty :: sstate where
  "stEmpty = \<lparr> ended = False, events = [eventObject ''close'' []],
               data = Text [], totalDataLen = 3 \<rparr>"

text \<open>Comparison functions over the states: the incremental one built from
  \<open>cmpStrictEqual\<close>, and one that returns the verdict \<^verbatim>\<open>false\<close>.\<close>

definition cmpfnEqual :: cmpfn where
  "cmpfnEqual = makeIncremental (Fn cmpStrictEqual) (Fn cmpStrictEqual)"

definition cmpfnFalse :: cmpfn where
  "cmpfnFalse s1 s2 = (Return (JBool False), s1, s2)"

text \<open>The default options with a \<^verbatim>\<open>compare\<close> function, and three variations.\<close>

definition optsDefault :: options where
  "optsDefault =
     \<lparr> abortOnError = False, compare = cmpfnEqual, delay = 0,
       endEvents = [''end'', ''error''], optEvents = [''close'', ''end'', ''error''],
       incremental = None, objectMode = False, readPolicy = RP_least \<rparr>"

definition optsObject :: options where
  "optsObject = optsDefault\<lparr>objectMode := True\<rparr>"


definition optsFlowing :: options where
  "optsFlowing = optsDefault\<lparr>readPolicy := RP_flowing\<rparr>"

text \<open>
  A comparison with the default options of two streams that have \<^verbatim>\<open>Hello\<close> and
  \<^verbatim>\<open>Hel\<close> buffered, and the closure once the \<^verbatim>\<open>nextTick\<close> callback has read
  both: \<^verbatim>\<open>readNext\<close> then waits for stream 2, which has delivered less.
\<close>

definition engineStart :: engine where
  "engineStart = streamCompare optsDefault [JStr ''Hello''] [JStr ''Hel'']"

definition engineRead :: engine where
  "engineRead =
     \<lparr> state1 = stHello\<lparr>events := []\<rparr>, state2 = stHel\<lparr>events := []\<rparr>,
       endedCount = 0, isDone = False, promise = Pending,
       listeners1 = [''close'', ''end'', ''error''],
       listeners2 = [''close'', ''end'', ''error''],
       postEndImmediate = False, postEndTimeout = False, nextTick = False,
       stream1 =
         \<lparr> registered =
             [(''close'', Listener1 ''close'', False), (''end'', Listener1 ''end'', False),
              (''error'', Listener1 ''error'', False), (''end'', EndListener1, False),
              (''error'', EndListener1, False), (''end'', ReadNextOnEnd, True)],
           readable = [] \<rparr>,
       stream2 =
         \<lparr> registered =
             [(''close'', Listener2 ''close'', False), (''end'', Listener2 ''end'', False),
              (''error'', Listener2 ''error'', False), (''end'', EndListener2, False),
              (''error'', EndListener2, False), (''end'', ReadNextOnEnd, True),
              (''readable'', ReadNext, True)],
           readable = [] \<rparr>,
       compareCalls = 0 \<rparr>"





section \<open>Properties of the incremental reducer\<close>

lemma slice_from_Items: "slice_from n (Items xs) = Some (Items (drop n xs))"
  by simp

lemma minLen_pos_slices:
  assumes "0 < minLen v1 v2"
  shows "\<exists>a b. slice_from n v1 = Some a \<and> slice_from n v2 = Some b"
  using assms by (cases v1; cases v2) (simp_all add: minLen_def)

lemma minLen_le:
  "minLen v1 v2 \<le> seq_len v1" "minLen v1 v2 \<le> seq_len v2"
  by (cases v1; cases v2; simp add: minLen_def)+

lemma slice_from_len:
  "slice_from n v = Some w \<Longrightarrow> seq_len w = seq_len v - n"
  by (cases v) auto

lemma get_set_prop:
  "slice_from n (get_prop p s) = Some w \<Longrightarrow> get_prop p (set_prop p w s) = w"
  by (cases p; cases "data s"; auto)


lemma incrementalProp_example:
  "incrementalProp stHello stHel PData cmpStrictEqual = (Return Undefined, stLo, stEmpty)"
  by (simp add: incrementalProp_def compareCall_def hasEvidence_def minLen_def stHello_def
      stHel_def stLo_def stEmpty_def cmpStrictEqual_def nullish_def Let_def)

text \<open>
  Claim C1 (trimming law). Take a pass of \<^verbatim>\<open>incrementalProp\<close> over a property
  (\<^verbatim>\<open>data\<close> or \<^verbatim>\<open>events\<close>) in which both states have evidence: a non-empty
  value, or the stream has ended. Its outcome is the outcome of the call of the comparison
  function. If that call returned \<^verbatim>\<open>null\<close> or \<^verbatim>\<open>undefined\<close> and the usable
  length \<open>n\<close>, the minimum of the two lengths, is positive, then in both states the
  property becomes its own value without the first \<open>n\<close> elements, so each length goes
  down by exactly \<open>n\<close>, and nothing else in the states changes. In every other case, in
  particular when the function returned another value or threw, both states are left as
  they were.
\<close>

theorem incrementalProp_trimming:
  assumes ev1: "hasEvidence (get_prop p s1) (ended s1)"
      and ev2: "hasEvidence (get_prop p s2) (ended s2)"
      and run: "incrementalProp s1 s2 p cmp = (res, t1, t2)"
  shows "res = compareCall s1 s2 p cmp \<and>
         ((\<exists>r. res = Return r \<and> nullish r) \<and> 0 < minLen (get_prop p s1) (get_prop p s2) \<longrightarrow>
            slice_from (minLen (get_prop p s1) (get_prop p s2)) (get_prop p s1) = Some (get_prop p t1) \<and>
            slice_from (minLen (get_prop p s1) (get_prop p s2)) (get_prop p s2) = Some (get_prop p t2) \<and>
            seq_len (get_prop p t1) + minLen (get_prop p s1) (get_prop p s2) = seq_len (get_prop p s1) \<and>
            seq_len (get_prop p t2) + minLen (get_prop p s1) (get_prop p s2) = seq_len (get_prop p s2) \<and>
            t1 = set_prop p (get_prop p t1) s1 \<and> t2 = set_prop p (get_prop p t2) s2) \<and>
         (\<not> ((\<exists>r. res = Return r \<and> nullish r) \<and> 0 < minLen (get_prop p s1) (get_prop p s2)) \<longrightarrow>
            t1 = s1 \<and> t2 = s2)"
proof -
  let ?n = "minLen (get_prop p s1) (get_prop p s2)"
  show ?thesis
  proof (cases "compareCall s1 s2 p cmp")
    case (Throw e)
    with ev1 ev2 run show ?thesis
      by (auto simp: incrementalProp_def Let_def)
  next
    case (ReturnThenable t)
    with ev1 ev2 run show ?thesis
      by (auto simp: incrementalProp_def Let_def)
  next
    case (Return r)
    show ?thesis
    proof (cases "0 < ?n \<and> nullish r")
      case False
      with Return ev1 ev2 run show ?thesis
        by (auto simp: incrementalProp_def Let_def)
    next
      case True
      then obtain a b where a: "slice_from ?n (get_prop p s1) = Some a"
        and b: "slice_from ?n (get_prop p s2) = Some b"
        using minLen_pos_slices by blast
      from True Return ev1 ev2 run a b
      have res: "res = Return r" and t1: "t1 = set_prop p a s1" and t2: "t2 = set_prop p b s2"
        by (auto simp: incrementalProp_def Let_def)
      have g1: "get_prop p t1 = a" and g2: "get_prop p t2 = b"
        using a b t1 t2 get_set_prop by auto
      have l1: "seq_len a + ?n = seq_len (get_prop p s1)"
        using slice_from_len[OF a] minLen_le(1)[of "get_prop p s1" "get_prop p s2"] by simp
      have l2: "seq_len b + ?n = seq_len (get_prop p s2)"
        using slice_from_len[OF b] minLen_le(2)[of "get_prop p s1" "get_prop p s2"] by simp
      show ?thesis
        using res Return True a b g1 g2 l1 l2 t1 t2 by simp
    qed
  qed
qed

theorem incrementalProp_trimming_witness:
  "hasEvidence (get_prop PData stHello) (ended stHello) \<and>
   hasEvidence (get_prop PData stHel) (ended stHel) \<and>
   incrementalProp stHello stHel PData cmpStrictEqual = (Return Undefined, stLo, stEmpty) \<and>
   minLen (get_prop PData stHello) (get_prop PData stHel) = 3 \<and>
   slice_from 3 (data stHello) = Some (data stLo) \<and>
   slice_from 3 (data stHel) = Some (data stEmpty) \<and>
   seq_len (data stLo) + 3 = seq_len (data stHello) \<and>
   seq_len (data stEmpty) + 3 = seq_len (data stHel)"
proof -
  have h1: "hasEvidence (get_prop PData stHello) (ended stHello)"
    by (simp add: hasEvidence_def stHello_def)
  have h2: "hasEvidence (get_prop PData stHel) (ended stHel)"
    by (simp add: hasEvidence_def stHel_def)
  have n: "minLen (get_prop PData stHello) (get_prop PData stHel) = 3"
    by (simp add: minLen_def stHello_def stHel_def)
  have nu: "nullish Undefined" by (simp add: nullish_def)
  from incrementalProp_trimming[OF h1 h2 incrementalProp_example] n nu h1 h2
    incrementalProp_example
  show ?thesis by simp
qed


text \<open>The events pass also trims the events although the data verdict is there.\<close>

lemma makeIncremental_trims_events_anyway:
  "makeIncremental (Fn cmpReturnFalse) (Fn cmpStrictEqual) stHello stHel =
     (Return (JBool False), stHello\<lparr>events := []\<rparr>, stHel\<lparr>events := []\<rparr>)"
  by (simp add: makeIncremental_def incrementalProp_def compareCall_def hasEvidence_def minLen_def
      stHello_def stHel_def cmpReturnFalse_def cmpStrictEqual_def nullish_def Let_def)



section \<open>Properties of the data accumulator\<close>

text \<open>
  Claim C7. Outside object mode \<^verbatim>\<open>addData\<close> throws a \<^verbatim>\<open>TypeError\<close> when the
  payload is neither a string nor a Buffer, and when there is accumulated data whose type
  (as \<^verbatim>\<open>Object.prototype.toString\<close> names it) is not the payload's; a string or
  Buffer that meets no data, or data of its own type, is appended. In object mode the payload,
  whatever it is, becomes one more element of the array (which is created when there is no
  data yet). Every successful call adds to \<^verbatim>\<open>totalDataLen\<close>: 1 in object mode, the
  length of the payload otherwise, which is also what the length of the data grows by.
\<close>

theorem addData_contract:
  "(\<not> objectMode opts \<and> \<not> isStringOrBuffer chunk \<longrightarrow>
      addData opts chunk s = Inl (expectedError chunk)) \<and>
   (\<not> objectMode opts \<and> isStringOrBuffer chunk \<and> data s \<noteq> Undef \<and>
    toStringTag chunk \<noteq> toStringTagSeq (data s) \<longrightarrow>
      addData opts chunk s = Inl (mixedError chunk (data s))) \<and>
   (\<not> objectMode opts \<and> isStringOrBuffer chunk \<and>
    (data s = Undef \<or> toStringTag chunk = toStringTagSeq (data s)) \<longrightarrow>
      (\<exists>s'. addData opts chunk s = Inr s')) \<and>
   (objectMode opts \<and> (\<not> truthy (data s) \<or> (\<exists>xs. data s = Items xs)) \<longrightarrow>
      addData opts chunk s =
        Inr (s\<lparr>data := Items (items_of (data s) @ [chunk]),
               totalDataLen := totalDataLen s + 1\<rparr>)) \<and>
   (\<forall>s'. addData opts chunk s = Inr s' \<longrightarrow>
      totalDataLen s' = totalDataLen s + (if objectMode opts then 1 else chunkLength chunk) \<and>
      (\<not> objectMode opts \<longrightarrow> seq_len (data s') = seq_len (data s) + chunkLength chunk))"
  apply (intro conjI impI allI)
  subgoal by (cases chunk) (auto simp: isStringOrBuffer_def)
  subgoal by (cases chunk; cases "data s") (auto simp: isStringOrBuffer_def)
  subgoal by (cases chunk; cases "data s") (auto simp: isStringOrBuffer_def)
  subgoal by (cases "data s") auto
  subgoal by (cases chunk; cases "data s") (auto split: if_splits)
  subgoal by (cases chunk; cases "data s") (auto split: if_splits)
  done

theorem addData_contract_witness:
  "addData optsDefault (JNum 5) StreamState = Inl (expectedError (JNum 5)) \<and>
   addData optsDefault (JStr ''llo'') (StreamState\<lparr>data := Bytes [72, 101]\<rparr>) =
     Inl (mixedError (JStr ''llo'') (Bytes [72, 101])) \<and>
   addData optsDefault (JStr ''llo'') (StreamState\<lparr>data := Text ''He'', totalDataLen := 2\<rparr>) =
     Inr (StreamState\<lparr>data := Text ''Hello'', totalDataLen := 5\<rparr>) \<and>
   addData optsObject (JNum 5) StreamState =
     Inr (StreamState\<lparr>data := Items [JNum 5], totalDataLen := 1\<rparr>) \<and>
   addData optsObject (JStr ''x'') (StreamState\<lparr>data := Items [JNum 5], totalDataLen := 1\<rparr>) =
     Inr (StreamState\<lparr>data := Items [JNum 5, JStr ''x''], totalDataLen := 2\<rparr>)"
proof -
  have o: "\<not> objectMode optsDefault" "objectMode optsObject"
    by (simp_all add: optsDefault_def optsObject_def)
  have a: "addData optsDefault (JNum 5) StreamState = Inl (expectedError (JNum 5))"
    using addData_contract[where opts=optsDefault and chunk="JNum 5" and s=StreamState] o
    by (simp add: isStringOrBuffer_def)
  have b: "addData optsDefault (JStr ''llo'') (StreamState\<lparr>data := Bytes [72, 101]\<rparr>) =
             Inl (mixedError (JStr ''llo'') (Bytes [72, 101]))"
    using addData_contract[where opts=optsDefault and chunk="JStr ''llo''"
        and s="StreamState\<lparr>data := Bytes [72, 101]\<rparr>"] o
    by (simp add: isStringOrBuffer_def)
  have c: "addData optsDefault (JStr ''llo'') (StreamState\<lparr>data := Text ''He'', totalDataLen := 2\<rparr>) =
             Inr (StreamState\<lparr>data := Text ''Hello'', totalDataLen := 5\<rparr>)"
    using o by (simp add: StreamState_def)
  have c': "totalDataLen (StreamState\<lparr>data := Text ''Hello'', totalDataLen := 5\<rparr>) =
              totalDataLen (StreamState\<lparr>data := Text ''He'', totalDataLen := 2\<rparr>) +
              chunkLength (JStr ''llo'')"
    using addData_contract[where opts=optsDefault and chunk="JStr ''llo''"
        and s="StreamState\<lparr>data := Text ''He'', totalDataLen := 2\<rparr>"] o c
    by simp
  have d: "addData optsObject (JNum 5) StreamState =
             Inr (StreamState\<lparr>data := Items [JNum 5], totalDataLen := 1\<rparr>)"
    using addData_contract[where opts=optsObject and chunk="JNum 5" and s=StreamState] o
    by (simp add: StreamState_def)
  have e: "addData optsObject (JStr ''x'') (StreamState\<lparr>data := Items [JNum 5], totalDataLen := 1\<rparr>) =
             Inr (StreamState\<lparr>data := Items [JNum 5, JStr ''x''], totalDataLen := 2\<rparr>)"
    using addData_contract[where opts=optsObject and chunk="JStr ''x''"
        and s="StreamState\<lparr>data := Items [JNum 5], totalDataLen := 1\<rparr>"] o
    by (simp add: StreamState_def)
  from a b c c' d e show ?thesis by simp
qed

text \<open>In object mode the data the engine builds from a fresh state is always an array, so
  a call in object mode always finds data that is absent or an array.\<close>

lemma addData_objectMode_Items:
  assumes "objectMode opts" and "addData opts chunk s = Inr s'"
  shows "\<exists>xs. data s' = Items xs"
  using assms by (cases "data s") (auto split: if_splits)

text \<open>An object-mode call fails only on data that object mode never builds: a non-empty
  string or a Buffer, which have no \<^verbatim>\<open>push\<close>.\<close>

lemma addData_objectMode_not_array:
  assumes "objectMode opts" and "truthy (data s)" and "\<forall>xs. data s \<noteq> Items xs"
  shows "addData opts chunk s = Inl pushError"
  using assms by (cases "data s") auto

text \<open>
  Claim C10. Outside object mode, when \<^verbatim>\<open>addData\<close> throws for a payload handed to
  \<^verbatim>\<open>handleData\<close> while the promise is pending, the error is one of the two
  \<^verbatim>\<open>TypeError\<close>s, both states are exactly as before (the state the payload was for has
  its data and \<^verbatim>\<open>totalDataLen\<close> untouched), the promise is rejected with that error,
  the comparison is done, and no comparison function has been called.
\<close>

theorem handleData_failure_atomic:
  assumes "\<not> objectMode opts"
      and "addData opts chunk (getState sd e) = Inl err"
      and "promise e = Pending"
  shows "(err = expectedError chunk \<or> err = mixedError chunk (data (getState sd e))) \<and>
         state1 (handleData opts sd chunk e) = state1 e \<and>
         state2 (handleData opts sd chunk e) = state2 e \<and>
         promise (handleData opts sd chunk e) = Rejected err \<and>
         isDone (handleData opts sd chunk e) \<and>
         compareCalls (handleData opts sd chunk e) = compareCalls e"
proof -
  have "err = expectedError chunk \<or> err = mixedError chunk (data (getState sd e))"
    using assms(1,2) by (cases chunk; cases "data (getState sd e)") (auto split: if_splits)
  moreover have "handleData opts sd chunk e = done_fn opts (reject err e)"
    using assms(2) by (simp add: handleData_def)
  ultimately show ?thesis
    using assms(3) by (simp add: done_fn_def reject_def)
qed

theorem handleData_failure_atomic_witness:
  "\<not> objectMode optsDefault \<and>
   addData optsDefault (JNum 5) (getState Stream2 engineRead) = Inl (expectedError (JNum 5)) \<and>
   promise engineRead = Pending \<and>
   state1 (handleData optsDefault Stream2 (JNum 5) engineRead) = state1 engineRead \<and>
   state2 (handleData optsDefault Stream2 (JNum 5) engineRead) = state2 engineRead \<and>
   data (state2 (handleData optsDefault Stream2 (JNum 5) engineRead)) = Text ''Hel'' \<and>
   totalDataLen (state2 (handleData optsDefault Stream2 (JNum 5) engineRead)) = 3 \<and>
   promise (handleData optsDefault Stream2 (JNum 5) engineRead) =
     Rejected (expectedError (JNum 5)) \<and>
   isDone (handleData optsDefault Stream2 (JNum 5) engineRead)"
proof -
  have h1: "\<not> objectMode optsDefault" by (simp add: optsDefault_def)
  have h2: "addData optsDefault (JNum 5) (getState Stream2 engineRead) =
              Inl (expectedError (JNum 5))"
    using h1 by simp
  have h3: "promise engineRead = Pending" by (simp add: engineRead_def)
  have s: "data (state2 engineRead) = Text ''Hel''" "totalDataLen (state2 engineRead) = 3"
    by (simp_all add: engineRead_def stHel_def)
  from handleData_failure_atomic[OF h1 h2 h3] h1 h2 h3 s show ?thesis
    by simp
qed

section \<open>Properties of the comparison controller\<close>

lemma incrementalProp_Return_kept:
  assumes "hasEvidence (get_prop p s1) (ended s1)" and "hasEvidence (get_prop p s2) (ended s2)"
      and "compareCall s1 s2 p cmp = Return r"
      and "\<not> (0 < minLen (get_prop p s1) (get_prop p s2) \<and> nullish r)"
  shows "incrementalProp s1 s2 p cmp = (Return r, s1, s2)"
  using assms by (auto simp: incrementalProp_def Let_def)

lemma incrementalProp_Return_trimmed:
  assumes "hasEvidence (get_prop p s1) (ended s1)" and "hasEvidence (get_prop p s2) (ended s2)"
      and "compareCall s1 s2 p cmp = Return r"
      and "0 < minLen (get_prop p s1) (get_prop p s2)" and "nullish r"
  shows "seq_len (get_prop p (fst (snd (incrementalProp s1 s2 p cmp)))) < seq_len (get_prop p s1)"
proof -
  let ?n = "minLen (get_prop p s1) (get_prop p s2)"
  obtain a b where a: "slice_from ?n (get_prop p s1) = Some a"
    and b: "slice_from ?n (get_prop p s2) = Some b"
    using minLen_pos_slices[OF assms(4)] by blast
  have "incrementalProp s1 s2 p cmp = (Return r, set_prop p a s1, set_prop p b s2)"
    using assms a b by (auto simp: incrementalProp_def Let_def)
  moreover have "seq_len a < seq_len (get_prop p s1)"
    using slice_from_len[OF a] assms(4) minLen_le(1)[of "get_prop p s1" "get_prop p s2"] by simp
  ultimately show ?thesis
    using get_set_prop[OF a] by simp
qed

text \<open>
  Claim C9. When a comparison function called by \<^verbatim>\<open>doCompare\<close> on a pending
  comparison returns \<open>v\<close>: if \<open>v\<close> is neither \<^verbatim>\<open>null\<close> nor \<^verbatim>\<open>undefined\<close>,
  the promise is fulfilled with \<open>v\<close> and the comparison is done; if it is one of the two,
  a checkpoint or incremental comparison leaves the promise pending, and the last comparison
  fulfils it with \<^verbatim>\<open>undefined\<close>. So \<^verbatim>\<open>false\<close>, \<^verbatim>\<open>0\<close> and the empty string
  are verdicts, \<^verbatim>\<open>null\<close> and \<^verbatim>\<open>undefined\<close> are not. The same test decides
  the trimming of \<^verbatim>\<open>incrementalProp\<close>: with evidence on both sides and a returned
  \<open>v\<close>, the states are changed exactly when \<open>v\<close> is \<^verbatim>\<open>null\<close> or
  \<^verbatim>\<open>undefined\<close> and the usable length is positive.
\<close>

theorem doCompare_verdict:
  "(\<forall>s1 s2. compareFn (state1 e) (state2 e) = (Return v, s1, s2) \<and> promise e = Pending \<longrightarrow>
      (\<not> nullish v \<longrightarrow>
         fst (doCompare opts compareFn ty e) \<and>
         promise (snd (doCompare opts compareFn ty e)) = Fulfilled v \<and>
         isDone (snd (doCompare opts compareFn ty e))) \<and>
      (nullish v \<and> ty \<noteq> CT_last \<longrightarrow>
         \<not> fst (doCompare opts compareFn ty e) \<and>
         promise (snd (doCompare opts compareFn ty e)) = Pending \<and>
         isDone (snd (doCompare opts compareFn ty e)) = isDone e) \<and>
      (nullish v \<and> ty = CT_last \<longrightarrow>
         fst (doCompare opts compareFn ty e) \<and>
         promise (snd (doCompare opts compareFn ty e)) = Fulfilled Undefined \<and>
         isDone (snd (doCompare opts compareFn ty e)))) \<and>
   (hasEvidence (get_prop p t1) (ended t1) \<and> hasEvidence (get_prop p t2) (ended t2) \<and>
    compareCall t1 t2 p cmp = Return v \<longrightarrow>
      (snd (incrementalProp t1 t2 p cmp) \<noteq> (t1, t2)) =
        (nullish v \<and> 0 < minLen (get_prop p t1) (get_prop p t2))) \<and>
   \<not> nullish (JBool False) \<and> \<not> nullish (JNum 0) \<and> \<not> nullish (JStr []) \<and>
   nullish Null \<and> nullish Undefined"
proof -
  have A: "\<forall>s1 s2. compareFn (state1 e) (state2 e) = (Return v, s1, s2) \<and> promise e = Pending \<longrightarrow>
      (\<not> nullish v \<longrightarrow>
         fst (doCompare opts compareFn ty e) \<and>
         promise (snd (doCompare opts compareFn ty e)) = Fulfilled v \<and>
         isDone (snd (doCompare opts compareFn ty e))) \<and>
      (nullish v \<and> ty \<noteq> CT_last \<longrightarrow>
         \<not> fst (doCompare opts compareFn ty e) \<and>
         promise (snd (doCompare opts compareFn ty e)) = Pending \<and>
         isDone (snd (doCompare opts compareFn ty e)) = isDone e) \<and>
      (nullish v \<and> ty = CT_last \<longrightarrow>
         fst (doCompare opts compareFn ty e) \<and>
         promise (snd (doCompare opts compareFn ty e)) = Fulfilled Undefined \<and>
         isDone (snd (doCompare opts compareFn ty e)))"
    by (auto simp: doCompare_def Let_def nullish_def done_fn_def resolve_def)
  have B: "hasEvidence (get_prop p t1) (ended t1) \<and> hasEvidence (get_prop p t2) (ended t2) \<and>
    compareCall t1 t2 p cmp = Return v \<longrightarrow>
      (snd (incrementalProp t1 t2 p cmp) \<noteq> (t1, t2)) =
        (nullish v \<and> 0 < minLen (get_prop p t1) (get_prop p t2))"
  proof (intro impI, elim conjE)
    assume ev: "hasEvidence (get_prop p t1) (ended t1)" "hasEvidence (get_prop p t2) (ended t2)"
      and c: "compareCall t1 t2 p cmp = Return v"
    show "(snd (incrementalProp t1 t2 p cmp) \<noteq> (t1, t2)) =
            (nullish v \<and> 0 < minLen (get_prop p t1) (get_prop p t2))"
    proof (cases "0 < minLen (get_prop p t1) (get_prop p t2) \<and> nullish v")
      case True
      then have "seq_len (get_prop p (fst (snd (incrementalProp t1 t2 p cmp)))) <
                 seq_len (get_prop p t1)"
        using incrementalProp_Return_trimmed[OF ev c] by blast
      then have "fst (snd (incrementalProp t1 t2 p cmp)) \<noteq> t1" by auto
      then have "snd (incrementalProp t1 t2 p cmp) \<noteq> (t1, t2)" by auto
      with True show ?thesis by simp
    next
      case False
      then show ?thesis
        using incrementalProp_Return_kept[OF ev c] by auto
    qed
  qed
  have C: "\<not> nullish (JBool False) \<and> \<not> nullish (JNum 0) \<and> \<not> nullish (JStr []) \<and>
           nullish Null \<and> nullish Undefined"
    by (simp add: nullish_def)
  from A B C show ?thesis by blast
qed

text \<open>A returned thenable is a result as well: the comparison is done, and the pending
  promise follows the thenable.\<close>

lemma doCompare_thenable:
  assumes "compareFn (state1 e) (state2 e) = (ReturnThenable t, s1, s2)"
      and "promise e = Pending"
  shows "fst (doCompare opts compareFn ty e) \<and>
         isDone (snd (doCompare opts compareFn ty e)) \<and>
         promise (snd (doCompare opts compareFn ty e)) = Following t"
  using assms by (simp add: doCompare_def Let_def done_fn_def resolveThenable_def)

theorem doCompare_verdict_witness:
  "cmpfnFalse (state1 engineRead) (state2 engineRead) =
     (Return (JBool False), state1 engineRead, state2 engineRead) \<and>
   promise engineRead = Pending \<and>
   fst (doCompare optsDefault cmpfnFalse CT_incremental engineRead) \<and>
   promise (snd (doCompare optsDefault cmpfnFalse CT_incremental engineRead)) =
     Fulfilled (JBool False) \<and>
   isDone (snd (doCompare optsDefault cmpfnFalse CT_incremental engineRead)) \<and>
   hasEvidence (get_prop PData stHello) (ended stHello) \<and>
   hasEvidence (get_prop PData stHel) (ended stHel) \<and>
   compareCall stHello stHel PData cmpStrictEqual = Return Undefined \<and>
   snd (incrementalProp stHello stHel PData cmpStrictEqual) \<noteq> (stHello, stHel) \<and>
   compareCall stHello stHel PData cmpReturnFalse = Return (JBool False) \<and>
   snd (incrementalProp stHello stHel PData cmpReturnFalse) = (stHello, stHel)"
proof -
  have c: "cmpfnFalse (state1 engineRead) (state2 engineRead) =
             (Return (JBool False), state1 engineRead, state2 engineRead)"
    by (simp add: cmpfnFalse_def)
  have p: "promise engineRead = Pending" by (simp add: engineRead_def)
  have nf: "\<not> nullish (JBool False)" "nullish Undefined" by (simp_all add: nullish_def)
  have h1: "hasEvidence (get_prop PData stHello) (ended stHello)"
    by (simp add: hasEvidence_def stHello_def)
  have h2: "hasEvidence (get_prop PData stHel) (ended stHel)"
    by (simp add: hasEvidence_def stHel_def)
  have n: "minLen (get_prop PData stHello) (get_prop PData stHel) = 3"
    by (simp add: minLen_def stHello_def stHel_def)
  have c1: "compareCall stHello stHel PData cmpStrictEqual = Return Undefined"
    by (simp add: compareCall_def minLen_def stHello_def stHel_def cmpStrictEqual_def Let_def)
  have c2: "compareCall stHello stHel PData cmpReturnFalse = Return (JBool False)"
    by (simp add: compareCall_def minLen_def stHello_def stHel_def cmpReturnFalse_def Let_def)
  have d: "fst (doCompare optsDefault cmpfnFalse CT_incremental engineRead) \<and>
     promise (snd (doCompare optsDefault cmpfnFalse CT_incremental engineRead)) =
       Fulfilled (JBool False) \<and>
     isDone (snd (doCompare optsDefault cmpfnFalse CT_incremental engineRead))"
    using doCompare_verdict[where compareFn=cmpfnFalse and e=engineRead and v="JBool False"
        and opts=optsDefault and ty=CT_incremental]
      c p nf by blast
  have t1: "snd (incrementalProp stHello stHel PData cmpStrictEqual) \<noteq> (stHello, stHel)"
    using doCompare_verdict[where v=Undefined and p=PData and ?t1.0=stHello and ?t2.0=stHel
        and cmp=cmpStrictEqual] h1 h2 c1 n nf
    by simp
  have t2: "snd (incrementalProp stHello stHel PData cmpReturnFalse) = (stHello, stHel)"
    using doCompare_verdict[where v="JBool False" and p=PData and ?t1.0=stHello and ?t2.0=stHel
        and cmp=cmpReturnFalse] h1 h2 c2 n nf
    by simp
  from c p d h1 h2 c1 c2 t1 t2 show ?thesis by simp
qed


lemma run_Nil [simp]: "run opts [] e = e"
  by (simp add: run_def)

lemma run_Cons [simp]: "run opts (a # acts) e = run opts acts (step opts a e)"
  by (simp add: run_def)

text \<open>
  Claim C5. Once the comparison is done, any sequence of calls of \<^verbatim>\<open>checkpoint()\<close>
  and \<^verbatim>\<open>end()\<close>, of any length, leaves the whole closure as it is: the two states, the
  promise, the listeners registered on the streams, the timers, and the count of calls of
  comparison functions.
\<close>

theorem settled_control_noop:
  assumes "isDone e" and "set acts \<subseteq> {Checkpoint, End}"
  shows "run opts acts e = e"
  using assms
  by (induction acts) (auto simp: promise_checkpoint_def promise_end_def)

theorem settled_control_noop_witness:
  "isDone (promise_end optsDefault engineRead) \<and>
   set [Checkpoint, End, End, Checkpoint] \<subseteq> {Checkpoint, End} \<and>
   run optsDefault [Checkpoint, End, End, Checkpoint] (promise_end optsDefault engineRead) =
     promise_end optsDefault engineRead"
proof -
  have h1: "isDone (promise_end optsDefault engineRead)" by code_simp
  have h2: "set [Checkpoint, End, End, Checkpoint] \<subseteq> {Checkpoint, End}" by simp
  from settled_control_noop[OF h1 h2, of optsDefault] h1 h2 show ?thesis by blast
qed

section \<open>Properties of the read scheduler\<close>

text \<open>
  Claim C6. A step of the loop of \<^verbatim>\<open>readNext\<close> on a comparison that is not done:
  while neither stream has ended it picks the one with the smaller \<^verbatim>\<open>totalDataLen\<close>,
  stream 1 on a tie; when one has ended it picks the other; when both have ended it picks
  none and \<^verbatim>\<open>readNext\<close> returns with nothing read or changed. The picked stream is
  the one read: a chunk it has buffered is taken from it and handed to \<^verbatim>\<open>handleData\<close>
  for its state, after which the loop goes on; when it has nothing buffered, \<^verbatim>\<open>readNext\<close>
  waits for its \<^verbatim>\<open>readable\<close> event and returns.
\<close>

theorem readNext_least:
  assumes "\<not> isDone e"
  shows "(\<not> ended (state1 e) \<and> \<not> ended (state2 e) \<longrightarrow>
            pickStream (state1 e) (state2 e) =
              Some (if totalDataLen (state1 e) \<le> totalDataLen (state2 e)
                    then Stream1 else Stream2)) \<and>
         (\<not> ended (state1 e) \<and> ended (state2 e) \<longrightarrow>
            pickStream (state1 e) (state2 e) = Some Stream1) \<and>
         (ended (state1 e) \<and> \<not> ended (state2 e) \<longrightarrow>
            pickStream (state1 e) (state2 e) = Some Stream2) \<and>
         (ended (state1 e) \<and> ended (state2 e) \<longrightarrow>
            pickStream (state1 e) (state2 e) = None \<and> readNext opts e = e) \<and>
         (\<forall>sd chunk rest.
            pickStream (state1 e) (state2 e) = Some sd \<and>
            readable (getStream sd e) = chunk # rest \<and> chunk \<noteq> Null \<longrightarrow>
            readNext opts e =
              readNext opts
                (handleData opts sd chunk
                   (setStream sd ((getStream sd e)\<lparr>readable := rest\<rparr>) e))) \<and>
         (\<forall>sd. pickStream (state1 e) (state2 e) = Some sd \<and> readable (getStream sd e) = [] \<longrightarrow>
            readNext opts e =
              setStream sd (stream_once ''readable'' ReadNext (getStream sd e)) e)"
  using assms
  by (auto simp: readNext.simps[of opts e] pickStream_def stream_read_def)

theorem readNext_least_witness:
  "\<not> isDone engineRead \<and>
   \<not> ended (state1 engineRead) \<and> \<not> ended (state2 engineRead) \<and>
   totalDataLen (state1 engineRead) = 5 \<and> totalDataLen (state2 engineRead) = 3 \<and>
   pickStream (state1 engineRead) (state2 engineRead) = Some Stream2 \<and>
   readable (getStream Stream2 engineRead) = [] \<and>
   readNext optsDefault engineRead =
     setStream Stream2 (stream_once ''readable'' ReadNext (getStream Stream2 engineRead)) engineRead"
proof -
  have h: "\<not> isDone engineRead" by (simp add: engineRead_def)
  have s: "\<not> ended (state1 engineRead)" "\<not> ended (state2 engineRead)"
    "totalDataLen (state1 engineRead) = 5" "totalDataLen (state2 engineRead) = 3"
    "readable (getStream Stream2 engineRead) = []"
    by (simp_all add: engineRead_def stHello_def stHel_def)
  have p: "pickStream (state1 engineRead) (state2 engineRead) = Some Stream2"
    using readNext_least[OF h, of optsDefault] s by simp
  have r: "readNext optsDefault engineRead =
     setStream Stream2 (stream_once ''readable'' ReadNext (getStream Stream2 engineRead)) engineRead"
    using readNext_least[OF h, of optsDefault] p s(5) by blast
  from h s p r show ?thesis by simp
qed

section \<open>The wiring is kept by everything that can happen\<close>

subsection \<open>Removing and adding registrations\<close>

lemma set_removeFirst: "set (removeFirst P xs) \<subseteq> set xs"
  by (induction xs) auto

lemma filter_removeFirst_other:
  "(\<And>x. P x \<Longrightarrow> \<not> Q x) \<Longrightarrow> filter Q (removeFirst P xs) = filter Q xs"
  by (induction xs) auto

lemma filter_removeFirst_Nil:
  "filter Q xs = [] \<Longrightarrow> filter Q (removeFirst P xs) = []"
  using set_removeFirst[of P xs] by (auto simp: filter_empty_conv)

lemma filter_removeFirst_same:
  "(\<And>x. P x \<Longrightarrow> Q x) \<Longrightarrow> filter Q (removeFirst P xs) = removeFirst P (filter Q xs)"
  by (induction xs) auto

lemma removeFirst_map_distinct:
  "distinct ks \<Longrightarrow> (\<And>n. P (f n) = (n = k)) \<Longrightarrow>
   removeFirst P (map f ks) = map f (filter (\<lambda>n. n \<noteq> k) ks)"
proof (induction ks)
  case Nil
  then show ?case by simp
next
  case (Cons a ks)
  show ?case
  proof (cases "a = k")
    case True
    with Cons.prems have "k \<notin> set ks" by simp
    then have "filter (\<lambda>n. n \<noteq> k) ks = ks" by (auto simp: filter_id_conv)
    with True Cons.prems(2) show ?thesis by simp
  next
    case False
    with Cons show ?thesis by simp
  qed
qed

lemma registered_removeListener:
  "registered (removeListener ev h st) =
     rev (removeFirst (\<lambda>r. fst r = ev \<and> fst (snd r) = h) (rev (registered st)))"
  by (simp add: removeListener_def)

lemma set_registered_removeListener:
  "set (registered (removeListener ev h st)) \<subseteq> set (registered st)"
  using set_removeFirst[of _ "rev (registered st)"]
  by (auto simp: registered_removeListener)

lemma listenerRegs_removeListener_other:
  assumes "\<not> isListener h"
  shows "listenerRegs (removeListener ev h st) = listenerRegs st"
proof -
  have "filter (\<lambda>r. isListener (fst (snd r)))
          (removeFirst (\<lambda>r. fst r = ev \<and> fst (snd r) = h) (rev (registered st))) =
        filter (\<lambda>r. isListener (fst (snd r))) (rev (registered st))"
    using assms by (intro filter_removeFirst_other) auto
  then show ?thesis
    by (simp add: listenerRegs_def registered_removeListener rev_filter[symmetric])
qed

lemma listenerRegs_removeListener_Nil:
  "listenerRegs st = [] \<Longrightarrow> listenerRegs (removeListener ev h st) = []"
  using set_registered_removeListener[of ev h st]
  by (auto simp: listenerRegs_def filter_empty_conv)

lemma errorRegs_removeListener_other:
  assumes "ev \<noteq> ''error''"
  shows "errorRegs (removeListener ev h st) = errorRegs st"
proof -
  have "filter (\<lambda>r. fst r = ''error'')
          (removeFirst (\<lambda>r. fst r = ev \<and> fst (snd r) = h) (rev (registered st))) =
        filter (\<lambda>r. fst r = ''error'') (rev (registered st))"
    using assms by (intro filter_removeFirst_other) auto
  then show ?thesis
    by (simp add: errorRegs_def registered_removeListener rev_filter[symmetric])
qed

lemma listenerRegs_removeListener_key:
  assumes "distinct ks" and "listenerRegs st = map (\<lambda>n. (n, f n, False)) ks"
      and "\<And>n. isListener (f n)"
  shows "listenerRegs (removeListener k (f k) st) =
           map (\<lambda>n. (n, f n, False)) (filter (\<lambda>n. n \<noteq> k) ks)"
proof -
  let ?P = "\<lambda>r::registration. fst r = k \<and> fst (snd r) = f k"
  let ?Q = "\<lambda>r::registration. isListener (fst (snd r))"
  let ?m = "\<lambda>n. (n, f n, False)"
  have "filter ?Q (removeFirst ?P (rev (registered st))) =
          removeFirst ?P (filter ?Q (rev (registered st)))"
    using assms(3) by (intro filter_removeFirst_same) auto
  also have "filter ?Q (rev (registered st)) = map ?m (rev ks)"
    using assms(2) by (simp add: listenerRegs_def rev_filter[symmetric] rev_map)
  also have "removeFirst ?P (map ?m (rev ks)) = map ?m (filter (\<lambda>n. n \<noteq> k) (rev ks))"
    using assms(1) by (intro removeFirst_map_distinct) auto
  finally show ?thesis
    by (simp add: listenerRegs_def registered_removeListener rev_filter[symmetric] rev_map)
qed

lemma listenerRegs_foldl_keys:
  assumes "distinct ks" and "listenerRegs st = map (\<lambda>n. (n, f n, False)) ks"
      and "\<And>n. isListener (f n)"
  shows "listenerRegs (foldl (\<lambda>st k. removeListener k (f k) st) st js) =
           map (\<lambda>n. (n, f n, False)) (filter (\<lambda>n. n \<notin> set js) ks)"
  using assms(1,2)
proof (induction js arbitrary: st ks)
  case Nil
  then show ?case by simp
next
  case (Cons j js)
  have "listenerRegs (removeListener j (f j) st) =
          map (\<lambda>n. (n, f n, False)) (filter (\<lambda>n. n \<noteq> j) ks)"
    using listenerRegs_removeListener_key[OF Cons.prems assms(3)] .
  moreover have "distinct (filter (\<lambda>n. n \<noteq> j) ks)" using Cons.prems(1) by simp
  ultimately have "listenerRegs (foldl (\<lambda>st k. removeListener k (f k) st)
                     (removeListener j (f j) st) js) =
      map (\<lambda>n. (n, f n, False)) (filter (\<lambda>n. n \<notin> set js) (filter (\<lambda>n. n \<noteq> j) ks))"
    using Cons.IH by blast
  then show ?case by (simp add: conj_commute)
qed

lemma listenerRegs_foldl_Nil:
  "listenerRegs st = [] \<Longrightarrow>
   listenerRegs (foldl (\<lambda>st k. removeListener k (f k) st) st js) = []"
  by (induction js arbitrary: st) (simp_all add: listenerRegs_removeListener_Nil)

lemma set_registered_foldl:
  "set (registered (foldl (\<lambda>st k. removeListener k (f k) st) st js)) \<subseteq> set (registered st)"
proof (induction js arbitrary: st)
  case Nil
  then show ?case by simp
next
  case (Cons j js)
  then show ?case
    using set_registered_removeListener[of j "f j" st] by fastforce
qed

lemma set_registered_unregister:
  "set (registered (unregister ks f h evs st)) \<subseteq> set (registered st)"
proof -
  let ?a = "foldl (\<lambda>st k. removeListener k (f k) st) st ks"
  let ?b = "removeListener ''readable'' ReadNext ?a"
  let ?c = "removeListener ''error'' OnStreamError ?b"
  let ?d = "removeListener ''end'' ReadNextOnEnd ?c"
  have "set (registered (foldl (\<lambda>st k. removeListener k h st) ?d evs)) \<subseteq> set (registered ?d)"
    by (rule set_registered_foldl)
  also have "\<dots> \<subseteq> set (registered ?c)" by (rule set_registered_removeListener)
  also have "\<dots> \<subseteq> set (registered ?b)" by (rule set_registered_removeListener)
  also have "\<dots> \<subseteq> set (registered ?a)" by (rule set_registered_removeListener)
  also have "\<dots> \<subseteq> set (registered st)" by (rule set_registered_foldl)
  finally show ?thesis by (simp add: unregister_def Let_def)
qed

lemma listenerRegs_unregister:
  assumes "distinct ks"
      and "listenerRegs st = [] \<or> listenerRegs st = map (\<lambda>n. (n, f n, False)) ks"
      and "\<And>n. isListener (f n)"
  shows "listenerRegs (unregister ks f h evs st) = []"
proof -
  let ?a = "foldl (\<lambda>st k. removeListener k (f k) st) st ks"
  have "listenerRegs ?a = []"
    using assms(2)
  proof
    assume "listenerRegs st = []"
    then show ?thesis by (rule listenerRegs_foldl_Nil)
  next
    assume "listenerRegs st = map (\<lambda>n. (n, f n, False)) ks"
    from listenerRegs_foldl_keys[OF assms(1) this assms(3), of ks]
    show ?thesis by simp
  qed
  then have "filter (\<lambda>r. isListener (fst (snd r))) (registered ?a) = []"
    by (simp add: listenerRegs_def)
  then have "\<forall>r \<in> set (registered ?a). \<not> isListener (fst (snd r))"
    by (simp add: filter_empty_conv)
  moreover have "set (registered (unregister ks f h evs st)) \<subseteq> set (registered ?a)"
  proof -
    let ?b = "removeListener ''readable'' ReadNext ?a"
    let ?c = "removeListener ''error'' OnStreamError ?b"
    let ?d = "removeListener ''end'' ReadNextOnEnd ?c"
    have "set (registered (foldl (\<lambda>st k. removeListener k h st) ?d evs)) \<subseteq> set (registered ?d)"
      by (rule set_registered_foldl)
    also have "\<dots> \<subseteq> set (registered ?c)" by (rule set_registered_removeListener)
    also have "\<dots> \<subseteq> set (registered ?b)" by (rule set_registered_removeListener)
    also have "\<dots> \<subseteq> set (registered ?a)" by (rule set_registered_removeListener)
    finally show ?thesis by (simp add: unregister_def Let_def)
  qed
  ultimately have "\<forall>r \<in> set (registered (unregister ks f h evs st)). \<not> isListener (fst (snd r))"
    by blast
  then show ?thesis by (simp add: listenerRegs_def filter_empty_conv)
qed


subsection \<open>The conditions on one stream\<close>

lemma streamOK_removeListener:
  assumes "\<not> isListener h" and "streamOK opts f ks dn st"
  shows "streamOK opts f ks dn (removeListener ev h st)"
  using assms set_registered_removeListener[of ev h st]
  by (auto simp: streamOK_def listenerRegs_removeListener_other)

lemma streamOK_once_readable:
  "streamOK opts f ks dn st \<Longrightarrow> streamOK opts f ks dn (stream_once ''readable'' ReadNext st)"
  by (auto simp: streamOK_def stream_once_def listenerRegs_def onceOK_def)

lemma streamOK_readable_update [simp]:
  "streamOK opts f ks dn (st\<lparr>readable := x\<rparr>) = streamOK opts f ks dn st"
  by (simp add: streamOK_def listenerRegs_def)

lemma streamOK_read:
  "stream_read st = (c, st') \<Longrightarrow> streamOK opts f ks dn st' = streamOK opts f ks dn st"
  by (auto simp: stream_read_def split: list.splits)

lemma streamOK_unregister:
  assumes "streamOK opts f ks dn st" and "\<And>n. isListener (f n)"
  shows "streamOK opts f ks True (unregister ks f h evs st)"
proof -
  have "listenerRegs (unregister ks f h evs st) = []"
    using assms by (intro listenerRegs_unregister) (auto simp: streamOK_def split: if_splits)
  then show ?thesis
    using assms(1) set_registered_unregister[of ks f h evs st]
    by (auto simp: streamOK_def)
qed

lemma abortArmed_removeListener:
  "ev \<noteq> ''error'' \<Longrightarrow> abortArmed (removeListener ev h st) = abortArmed st"
  by (simp add: abortArmed_def errorRegs_removeListener_other)

lemma abortArmed_once_readable [simp]:
  "abortArmed (stream_once ''readable'' ReadNext st) = abortArmed st"
  by (simp add: abortArmed_def errorRegs_def stream_once_def)

lemma abortArmed_readable_update [simp]:
  "abortArmed (st\<lparr>readable := x\<rparr>) = abortArmed st"
  by (simp add: abortArmed_def errorRegs_def)

lemma abortArmed_read:
  "stream_read st = (c, st') \<Longrightarrow> abortArmed st' = abortArmed st"
  by (auto simp: stream_read_def split: list.splits)

subsection \<open>The conditions on the closure\<close>

lemma tablesOK_frame [simp]:
  "tablesOK opts (e\<lparr>state1 := s\<rparr>) = tablesOK opts e"
  "tablesOK opts (e\<lparr>state2 := s\<rparr>) = tablesOK opts e"
  "tablesOK opts (e\<lparr>endedCount := n\<rparr>) = tablesOK opts e"
  "tablesOK opts (e\<lparr>compareCalls := n\<rparr>) = tablesOK opts e"
  "tablesOK opts (e\<lparr>nextTick := b\<rparr>) = tablesOK opts e"
  "tablesOK opts (e\<lparr>postEndImmediate := b\<rparr>) = tablesOK opts e"
  "tablesOK opts (e\<lparr>postEndTimeout := b\<rparr>) = tablesOK opts e"
  "tablesOK opts (e\<lparr>promise := p\<rparr>) = tablesOK opts e"
  by (simp_all add: tablesOK_def)

lemma wired_frame [simp]:
  "wired opts (e\<lparr>state1 := s\<rparr>) = wired opts e"
  "wired opts (e\<lparr>state2 := s\<rparr>) = wired opts e"
  "wired opts (e\<lparr>endedCount := n\<rparr>) = wired opts e"
  "wired opts (e\<lparr>compareCalls := n\<rparr>) = wired opts e"
  "wired opts (e\<lparr>nextTick := b\<rparr>) = wired opts e"
  by (simp_all add: wired_def)

lemma wired_setState [simp]: "wired opts (setState sd s e) = wired opts e"
  by (cases sd) simp_all

lemma tablesOK_setState [simp]: "tablesOK opts (setState sd s e) = tablesOK opts e"
  by (cases sd) simp_all

lemma isListener_Listener [simp]: "isListener (Listener1 n)" "isListener (Listener2 n)"
  by simp_all

lemma wired_done_fn:
  assumes "tablesOK opts e" and "promise e \<noteq> Pending"
  shows "wired opts (done_fn opts e)"
proof -
  have "streamOK opts Listener1 (listeners1 e) True
          (unregister (listeners1 e) Listener1 EndListener1 (endEvents opts) (stream1 e))"
    using assms(1) by (intro streamOK_unregister[where dn = "isDone e"]) (simp_all add: tablesOK_def)
  moreover have "streamOK opts Listener2 (listeners2 e) True
          (unregister (listeners2 e) Listener2 EndListener2 (endEvents opts) (stream2 e))"
    using assms(1) by (intro streamOK_unregister[where dn = "isDone e"]) (simp_all add: tablesOK_def)
  ultimately show ?thesis
    using assms(2) by (simp add: wired_def tablesOK_def done_fn_def)
qed

lemma wired_settle:
  assumes "tablesOK opts e"
  shows "wired opts (done_fn opts (resolve v e))" and "wired opts (done_fn opts (reject v e))"
    and "wired opts (done_fn opts (resolveThenable t e))"
  using assms by (auto intro!: wired_done_fn simp: resolve_def reject_def resolveThenable_def)

lemma wired_tablesOK: "wired opts e \<Longrightarrow> tablesOK opts e"
  by (simp add: wired_def)

lemma wired_doCompare:
  assumes "wired opts e"
  shows "wired opts (snd (doCompare opts f ty e))"
  using assms
  by (auto simp: doCompare_def Let_def wired_settle wired_tablesOK
      split: prod.splits outcome.splits)

text \<open>A comparison that \<^verbatim>\<open>doCompare\<close> reports as without result has changed nothing
  but the states.\<close>

lemma doCompare_False:
  assumes "doCompare opts f ty e = (False, e')"
  shows "\<exists>s1 s2. e' = e\<lparr>state1 := s1, state2 := s2, compareCalls := compareCalls e + 1\<rparr>"
  using assms
  by (auto simp: doCompare_def Let_def split: prod.splits outcome.splits if_splits)

lemma doCompare_False_isDone:
  "doCompare opts f ty e = (False, e') \<Longrightarrow> isDone e' = isDone e"
  using doCompare_False[of opts f ty e e'] by auto

lemma doCompare_True:
  assumes "doCompare opts f ty e = (True, e')"
  shows "isDone e'"
  using assms
  by (auto simp: doCompare_def Let_def done_fn_def split: prod.splits outcome.splits if_splits)

lemma wired_listener: "wired opts e \<Longrightarrow> wired opts (listener opts sd n args e)"
  by (simp add: listener_def Let_def wired_doCompare split: option.splits)

lemma wired_handleData: "wired opts e \<Longrightarrow> wired opts (handleData opts sd chunk e)"
  by (auto simp: handleData_def Let_def wired_doCompare wired_settle wired_tablesOK
      split: sum.splits option.splits)

lemma wired_onStreamError: "tablesOK opts e \<Longrightarrow> wired opts (onStreamError opts err e)"
  by (simp add: onStreamError_def wired_settle)

lemma wired_postEndCompare: "wired opts e \<Longrightarrow> wired opts (postEndCompare opts e)"
  by (simp add: postEndCompare_def wired_doCompare)

lemma wired_schedulePostEnd:
  "wired opts e \<Longrightarrow> \<not> isDone e \<Longrightarrow> wired opts (schedulePostEnd opts e)"
  by (auto simp: schedulePostEnd_def wired_def)

lemma wired_endListener:
  assumes "wired opts e"
  shows "wired opts (endListener opts sd e)"
proof (cases "ended (getState sd e) \<or> isDone e")
  case True
  with assms show ?thesis by (simp add: endListener_def)
next
  case False
  let ?e1 = "(setState sd ((getState sd e)\<lparr>ended := True\<rparr>) e)\<lparr>endedCount :=
     endedCount (setState sd ((getState sd e)\<lparr>ended := True\<rparr>) e) + 1\<rparr>"
  have w1: "wired opts ?e1" using assms by simp
  have nd: "\<not> isDone ?e1" using False by (cases sd) simp_all
  show ?thesis
  proof (cases "incremental opts")
    case None
    with False w1 nd show ?thesis
      by (simp add: endListener_def Let_def wired_schedulePostEnd)
  next
    case (Some inc)
    obtain b e' where d: "doCompare opts inc CT_incremental ?e1 = (b, e')"
      by (cases "doCompare opts inc CT_incremental ?e1")
    have w': "wired opts e'" using wired_doCompare[OF w1, of inc CT_incremental] d by simp
    show ?thesis
    proof (cases b)
      case True
      with False Some d w' show ?thesis by (simp add: endListener_def Let_def)
    next
      case bf: False
      with d have d': "doCompare opts inc CT_incremental ?e1 = (False, e')" by simp
      have "\<not> isDone e'" using nd doCompare_False_isDone[OF d'] by simp
      with False Some d w' bf show ?thesis
        by (simp add: endListener_def Let_def wired_schedulePostEnd)
    qed
  qed
qed


lemma wired_setStream:
  assumes "wired opts e"
      and "\<And>f ks dn. streamOK opts f ks dn (getStream sd e) \<Longrightarrow> streamOK opts f ks dn st'"
      and "abortArmed (getStream sd e) \<Longrightarrow> abortArmed st'"
  shows "wired opts (setStream sd st' e)"
  using assms by (cases sd) (auto simp: wired_def tablesOK_def)

lemma wired_read:
  assumes "wired opts e" and "stream_read (getStream sd e) = (c, st)"
  shows "wired opts (setStream sd st e)"
  using assms(1)
  by (rule wired_setStream) (simp_all add: streamOK_read[OF assms(2)] abortArmed_read[OF assms(2)])

lemma wired_read_wait:
  assumes "wired opts e" and "stream_read (getStream sd e) = (c, st)"
  shows "wired opts (setStream sd (stream_once ''readable'' ReadNext st) e)"
  using assms(1)
  by (rule wired_setStream)
     (simp_all add: streamOK_read[OF assms(2)] abortArmed_read[OF assms(2)] streamOK_once_readable)

lemma wired_readNext: "wired opts e \<Longrightarrow> wired opts (readNext opts e)"
proof (induction opts e rule: readNext.induct)
  case (1 opts e)
  show ?case
  proof (cases "isDone e")
    case True
    with "1.prems" show ?thesis by (simp add: readNext.simps[of opts e])
  next
    case nd: False
    show ?thesis
    proof (cases "pickStream (state1 e) (state2 e)")
      case None
      with nd "1.prems" show ?thesis by (simp add: readNext.simps[of opts e])
    next
      case (Some sd)
      obtain c st where r: "stream_read (getStream sd e) = (c, st)"
        by (cases "stream_read (getStream sd e)")
      show ?thesis
      proof (cases "c = Null")
        case True
        with nd Some r wired_read_wait[OF "1.prems" r] show ?thesis
          by (simp add: readNext.simps[of opts e])
      next
        case False
        have "wired opts (handleData opts sd c (setStream sd st e))"
          using wired_read[OF "1.prems" r] by (rule wired_handleData)
        then have "wired opts (readNext opts (handleData opts sd c (setStream sd st e)))"
          using "1.IH"[OF nd Some r[symmetric] False] by simp
        with nd Some r False show ?thesis
          by (simp add: readNext.simps[of opts e])
      qed
    qed
  qed
qed

lemma tablesOK_remove_once:
  assumes "tablesOK opts e" and "\<not> isListener h"
  shows "tablesOK opts (setStream sd (removeListener ev h (getStream sd e)) e)"
  using assms by (cases sd) (simp_all add: tablesOK_def streamOK_removeListener)

lemma wired_remove_once:
  assumes "wired opts e" and "\<not> isListener h" and "ev \<noteq> ''error''"
  shows "wired opts (setStream sd (removeListener ev h (getStream sd e)) e)"
  using assms(1)
  by (rule wired_setStream)
     (simp_all add: streamOK_removeListener[OF assms(2)] abortArmed_removeListener[OF assms(3)])

lemma wired_remove_readable:
  assumes "wired opts e"
  shows "wired opts (e\<lparr>stream1 := removeListener ''readable'' ReadNext (stream1 e),
                        stream2 := removeListener ''readable'' ReadNext (stream2 e)\<rparr>)"
proof -
  let ?e1 = "setStream Stream1 (removeListener ''readable'' ReadNext (getStream Stream1 e)) e"
  have w1: "wired opts ?e1"
    by (rule wired_remove_once[OF assms]) simp_all
  have "wired opts
      (setStream Stream2 (removeListener ''readable'' ReadNext (getStream Stream2 ?e1)) ?e1)"
    by (rule wired_remove_once[OF w1]) simp_all
  then show ?thesis by simp
qed

lemma wired_readNextOnEnd: "wired opts e \<Longrightarrow> wired opts (readNextOnEnd opts e)"
  by (simp add: readNextOnEnd_def wired_readNext wired_remove_readable)

lemma wired_runHandler: "wired opts e \<Longrightarrow> wired opts (runHandler opts h args e)"
  by (cases h)
     (simp_all add: wired_listener wired_endListener wired_onStreamError wired_tablesOK
        wired_readNext wired_readNextOnEnd wired_handleData)

lemma wired_invoke:
  assumes "wired opts e" and "onceOK r"
  shows "wired opts (invoke opts sd args e r)"
proof -
  obtain ev h once where r: "r = (ev, h, once)" by (cases r)
  show ?thesis
  proof (cases once)
    case False
    with r assms(1) show ?thesis by (simp add: invoke_def wired_runHandler)
  next
    case True
    with r assms(2) consider
      (err) "ev = ''error''" "h = OnStreamError"
      | (rd) "ev = ''readable''" "h = ReadNext"
      | (en) "ev = ''end''" "h = ReadNextOnEnd"
      by (auto simp: onceOK_def)
    then show ?thesis
    proof cases
      case err
      have "tablesOK opts (setStream sd (removeListener ev h (getStream sd e)) e)"
        using wired_tablesOK[OF assms(1)] err by (intro tablesOK_remove_once) simp_all
      with r True err show ?thesis by (simp add: invoke_def wired_onStreamError)
    next
      case rd
      have "wired opts (setStream sd (removeListener ev h (getStream sd e)) e)"
        using assms(1) rd by (intro wired_remove_once) simp_all
      with r True rd show ?thesis by (simp add: invoke_def wired_readNext)
    next
      case en
      have "wired opts (setStream sd (removeListener ev h (getStream sd e)) e)"
        using assms(1) en by (intro wired_remove_once) simp_all
      with r True en show ?thesis by (simp add: invoke_def wired_readNextOnEnd)
    qed
  qed
qed

lemma wired_foldl_invoke:
  "wired opts e \<Longrightarrow> \<forall>r \<in> set rs. onceOK r \<Longrightarrow> wired opts (foldl (invoke opts sd args) e rs)"
  by (induction rs arbitrary: e) (simp_all add: wired_invoke)

lemma wired_onceOK:
  assumes "wired opts e" and "r \<in> set (registered (getStream sd e))"
  shows "onceOK r"
  using assms by (cases sd) (auto simp: wired_def tablesOK_def streamOK_def)

lemma wired_emit: "wired opts e \<Longrightarrow> wired opts (emit opts sd ev args e)"
  unfolding emit_def
  by (rule wired_foldl_invoke) (auto intro: wired_onceOK)

lemma wired_buffer:
  "wired opts e \<Longrightarrow>
   wired opts (setStream sd ((getStream sd e)\<lparr>readable := readable (getStream sd e) @ [c]\<rparr>) e)"
  by (rule wired_setStream) simp_all

lemma wired_timer_cleared:
  "wired opts e \<Longrightarrow> wired opts (e\<lparr>postEndImmediate := False\<rparr>)"
  "wired opts e \<Longrightarrow> wired opts (e\<lparr>postEndTimeout := False\<rparr>)"
  by (simp_all add: wired_def)

lemma adopt_not_Pending [simp]: "adopt t \<noteq> Pending"
  by (cases t) simp_all

lemma wired_promiseJob:
  "wired opts e \<Longrightarrow> promise e = Following t \<Longrightarrow> wired opts (e\<lparr>promise := adopt t\<rparr>)"
  by (simp add: wired_def)

lemma wired_step: "wired opts e \<Longrightarrow> wired opts (step opts a e)"
  by (cases a)
     (simp_all add: wired_emit wired_buffer promise_checkpoint_def promise_end_def
        wired_doCompare wired_readNext wired_postEndCompare wired_timer_cleared
        wired_promiseJob split: settlement.splits)


subsection \<open>The closure that \<^verbatim>\<open>streamCompare\<close> returns\<close>

lemma baseWired_newEngine: "baseWired opts (newEngine b1 b2)"
  by (simp add: baseWired_def newEngine_def listenerRegs_def)

lemma baseWired_registerEvent:
  "baseWired opts e \<Longrightarrow> baseWired opts (registerEvent opts e ev)"
  by (auto simp: baseWired_def registerEvent_def stream_on_def listenerRegs_def)

lemma baseWired_registerEnd:
  "baseWired opts e \<Longrightarrow> baseWired opts (registerEnd opts e ev)"
  by (auto simp: baseWired_def registerEnd_def stream_on_def listenerRegs_def)

lemma baseWired_foldl_registerEvent:
  "baseWired opts e \<Longrightarrow> baseWired opts (foldl (registerEvent opts) e evs)"
  by (induction evs arbitrary: e) (simp_all add: baseWired_registerEvent)

lemma baseWired_foldl_registerEnd:
  "baseWired opts e \<Longrightarrow> baseWired opts (foldl (registerEnd opts) e evs)"
  by (induction evs arbitrary: e) (simp_all add: baseWired_registerEnd)

lemma filter_False_conv: "(\<forall>x \<in> set xs. \<not> P x) \<Longrightarrow> filter P xs = []"
  by (simp add: filter_empty_conv)

lemma wired_registerReads_registerAbort:
  assumes "baseWired opts e"
  shows "wired opts (registerReads opts (registerAbort opts e))"
proof -
  have e1: "errorRegs (stream1 e) = []" if "abortOnError opts"
    using assms that unfolding errorRegs_def baseWired_def
    by (intro filter_False_conv) auto
  have e2: "errorRegs (stream2 e) = []" if "abortOnError opts"
    using assms that unfolding errorRegs_def baseWired_def
    by (intro filter_False_conv) auto
  show ?thesis
  proof (cases "readPolicy opts")
    case RP_flowing
    with assms e1 e2 show ?thesis
      by (auto simp: wired_def tablesOK_def streamOK_def abortArmed_def errorRegs_def
          listenerRegs_def baseWired_def registerReads_def registerAbort_def stream_on_def
          stream_once_def onceOK_def)
  next
    case RP_least
    with assms e1 e2 show ?thesis
      by (auto simp: wired_def tablesOK_def streamOK_def abortArmed_def errorRegs_def
          listenerRegs_def baseWired_def registerReads_def registerAbort_def stream_on_def
          stream_once_def onceOK_def)
  next
    case RP_none
    with assms e1 e2 show ?thesis
      by (auto simp: wired_def tablesOK_def streamOK_def abortArmed_def errorRegs_def
          listenerRegs_def baseWired_def registerReads_def registerAbort_def stream_on_def
          stream_once_def onceOK_def)
  qed
qed

lemma wired_streamCompare: "wired opts (streamCompare opts b1 b2)"
  unfolding streamCompare_def
  by (intro wired_registerReads_registerAbort baseWired_foldl_registerEnd
      baseWired_foldl_registerEvent baseWired_newEngine)

lemma reachable_wired: "reachable opts e \<Longrightarrow> wired opts e"
  by (induction rule: reachable.induct) (simp_all add: wired_streamCompare wired_step)

section \<open>Properties of whole runs\<close>

lemma reachable_run: "reachable opts e \<Longrightarrow> reachable opts (run opts acts e)"
proof (induction acts arbitrary: e)
  case Nil
  then show ?case by (simp add: run_def)
next
  case (Cons a acts)
  then show ?case by (simp add: run_def reachable.reach_step)
qed

lemma engineRead_run: "run optsDefault [NextTick] engineStart = engineRead"
  by code_simp

lemma engineRead_reachable: "reachable optsDefault engineRead"
  using reachable_run[OF reachable.reach_start, of optsDefault "[NextTick]"]
  by (simp add: engineRead_run[symmetric] engineStart_def)

subsection \<open>The end of a comparison by the caller\<close>






subsection \<open>Abort on error\<close>





subsection \<open>After settlement\<close>

lemma isDone_doCompare: "isDone e \<Longrightarrow> isDone (snd (doCompare opts f ty e))"
  by (auto simp: doCompare_def Let_def done_fn_def split: prod.splits outcome.splits)

lemma isDone_done_fn [simp]: "isDone (done_fn opts e)"
  by (simp add: done_fn_def)

lemma isDone_setState [simp]: "isDone (setState sd s e) = isDone e"
  by (cases sd) simp_all

lemma isDone_setStream [simp]: "isDone (setStream sd st e) = isDone e"
  by (cases sd) simp_all

lemma states_setStream [simp]:
  "state1 (setStream sd st e) = state1 e" "state2 (setStream sd st e) = state2 e"
  by (cases sd; simp)+

lemma readNext_done: "isDone e \<Longrightarrow> readNext opts e = e"
  by (simp add: readNext.simps[of opts e])

lemma isDone_runHandler: "isDone e \<Longrightarrow> isDone (runHandler opts h args e)"
  by (cases h)
     (auto simp: listener_def handleData_def endListener_def onStreamError_def
        readNextOnEnd_def readNext_done isDone_doCompare Let_def
        split: option.splits sum.splits)

lemma isDone_invoke: "isDone e \<Longrightarrow> isDone (invoke opts sd args e r)"
  by (cases r) (simp add: invoke_def isDone_runHandler)

lemma isDone_emit: "isDone e \<Longrightarrow> isDone (emit opts sd ev args e)"
proof -
  have "isDone e \<Longrightarrow> isDone (foldl (invoke opts sd args) e rs)" for rs e
    by (induction rs arbitrary: e) (simp_all add: isDone_invoke)
  then show "isDone e \<Longrightarrow> isDone (emit opts sd ev args e)"
    by (simp add: emit_def)
qed

lemma isDone_step: "isDone e \<Longrightarrow> isDone (step opts a e)"
  by (cases a)
     (auto simp: isDone_emit promise_checkpoint_def promise_end_def readNext_done
        postEndCompare_def isDone_doCompare split: settlement.splits)

text \<open>The listeners that test \<^verbatim>\<open>isDone\<close>, or do not touch the states at all.\<close>

lemma guarded_runHandler:
  assumes "isDone e" and "\<not> isListener h" and "\<not> isHandleData h"
  shows "state1 (runHandler opts h args e) = state1 e \<and>
         state2 (runHandler opts h args e) = state2 e"
  using assms
  by (cases h)
     (simp_all add: endListener_def onStreamError_def done_fn_def reject_def
        readNextOnEnd_def readNext_done)

lemma guarded_invoke:
  assumes "isDone e" and "\<not> isListener (fst (snd r))" and "\<not> isHandleData (fst (snd r))"
  shows "state1 (invoke opts sd args e r) = state1 e \<and>
         state2 (invoke opts sd args e r) = state2 e"
  using assms by (cases r) (simp add: invoke_def guarded_runHandler)

lemma guarded_foldl_invoke:
  assumes "isDone e"
      and "\<forall>r \<in> set rs. \<not> isListener (fst (snd r)) \<and> \<not> isHandleData (fst (snd r))"
  shows "state1 (foldl (invoke opts sd args) e rs) = state1 e \<and>
         state2 (foldl (invoke opts sd args) e rs) = state2 e"
  using assms
proof (induction rs arbitrary: e)
  case Nil
  then show ?case by simp
next
  case (Cons r rs)
  have "isDone (invoke opts sd args e r)" using Cons.prems(1) by (rule isDone_invoke)
  with Cons show ?case by (simp add: guarded_invoke)
qed

lemma settled_no_unguarded:
  assumes "wired opts e" and "isDone e" and "readPolicy opts \<noteq> RP_flowing"
      and "r \<in> set (registered (getStream sd e))"
  shows "\<not> isListener (fst (snd r)) \<and> \<not> isHandleData (fst (snd r))"
proof -
  have "listenerRegs (getStream sd e) = []"
    using assms(1,2) by (cases sd) (simp_all add: wired_def tablesOK_def streamOK_def)
  then have "\<not> isListener (fst (snd r))"
    using assms(4) by (auto simp: listenerRegs_def filter_empty_conv)
  moreover have "\<not> isHandleData (fst (snd r))"
    using assms(1,3,4) by (cases sd) (auto simp: wired_def tablesOK_def streamOK_def)
  ultimately show ?thesis by simp
qed

text \<open>
  Claim C8, as stated, fails: nothing is frozen at settlement, and \<^verbatim>\<open>done\<close> does not
  remove the \<^verbatim>\<open>data\<close> listeners of the read policy \<^verbatim>\<open>flowing\<close>. Here the
  caller ends a flowing comparison, which fulfils the promise; a \<^verbatim>\<open>data\<close> event that
  stream 1 emits afterwards is still appended to its state.
\<close>

theorem settled_flowing_counterexample:
  "isDone (run optsFlowing [End] (streamCompare optsFlowing [] [])) \<and>
   promise (run optsFlowing [End] (streamCompare optsFlowing [] [])) = Fulfilled Undefined \<and>
   state1 (run optsFlowing [End] (streamCompare optsFlowing [] [])) = StreamState \<and>
   state1 (run optsFlowing [End, Emit Stream1 ''data'' [JStr ''late'']]
             (streamCompare optsFlowing [] [])) =
     StreamState\<lparr>data := Text ''late'', totalDataLen := 4\<rparr>"
  by code_simp

text \<open>
  Claim C8, amended. In every run, once the comparison is done: the promise is no longer
  pending, no post-end timer is pending, no listener of the event recorder is registered on either
  stream, and the comparison stays done whatever happens next. Under the read policies
  \<^verbatim>\<open>least\<close> and \<^verbatim>\<open>none\<close>, nothing that happens next (an event of either stream,
  a chunk buffered by a stream, \<^verbatim>\<open>checkpoint()\<close>, \<^verbatim>\<open>end()\<close>, the
  \<^verbatim>\<open>nextTick\<close> callback, a timer, a promise job) changes either state.
\<close>

theorem settled_inert:
  assumes "reachable opts e" and "isDone e"
  shows "promise e \<noteq> Pending \<and> \<not> postEndImmediate e \<and> \<not> postEndTimeout e \<and>
         listenerRegs (stream1 e) = [] \<and> listenerRegs (stream2 e) = [] \<and>
         isDone (step opts a e) \<and>
         (readPolicy opts \<noteq> RP_flowing \<longrightarrow>
            state1 (step opts a e) = state1 e \<and> state2 (step opts a e) = state2 e)"
proof -
  have w: "wired opts e" using assms(1) by (rule reachable_wired)
  have a1: "promise e \<noteq> Pending \<and> \<not> postEndImmediate e \<and> \<not> postEndTimeout e \<and>
         listenerRegs (stream1 e) = [] \<and> listenerRegs (stream2 e) = []"
    using w assms(2) by (simp add: wired_def tablesOK_def streamOK_def)
  have a2: "isDone (step opts a e)" using assms(2) by (rule isDone_step)
  have a3: "state1 (step opts a e) = state1 e \<and> state2 (step opts a e) = state2 e"
    if nf: "readPolicy opts \<noteq> RP_flowing"
  proof (cases a)
    case (Emit sd ev args)
    have "\<forall>r \<in> set (filter (\<lambda>r. fst r = ev) (registered (getStream sd e))).
            \<not> isListener (fst (snd r)) \<and> \<not> isHandleData (fst (snd r))"
      using settled_no_unguarded[OF w assms(2) nf, of _ sd] by auto
    then show ?thesis
      using Emit guarded_foldl_invoke[OF assms(2)] by (simp add: emit_def)
  next
    case (Buffer sd c)
    then show ?thesis by simp
  next
    case Checkpoint
    with assms(2) show ?thesis by (simp add: promise_checkpoint_def)
  next
    case End
    with assms(2) show ?thesis by (simp add: promise_end_def)
  next
    case NextTick
    with assms(2) show ?thesis by (simp add: readNext_done)
  next
    case Immediate
    with a1 show ?thesis by simp
  next
    case Timeout
    with a1 show ?thesis by simp
  next
    case PromiseJob
    then show ?thesis by (simp split: settlement.splits)
  qed
  from a1 a2 a3 show ?thesis by blast
qed

theorem settled_inert_witness:
  "reachable optsDefault (promise_end optsDefault engineRead) \<and>
   isDone (promise_end optsDefault engineRead) \<and>
   readPolicy optsDefault \<noteq> RP_flowing \<and>
   promise (promise_end optsDefault engineRead) = Fulfilled Undefined \<and>
   registered (stream1 (promise_end optsDefault engineRead)) = [] \<and>
   state1 (step optsDefault (Emit Stream1 ''close'' []) (promise_end optsDefault engineRead)) =
     state1 (promise_end optsDefault engineRead) \<and>
   state2 (step optsDefault (Emit Stream1 ''close'' []) (promise_end optsDefault engineRead)) =
     state2 (promise_end optsDefault engineRead) \<and>
   state1 (step optsDefault (Emit Stream1 ''close'' []) engineRead) \<noteq> state1 engineRead"
proof -
  have h1: "reachable optsDefault (promise_end optsDefault engineRead)"
    using reachable.reach_step[OF engineRead_reachable, of End] by simp
  have h2: "isDone (promise_end optsDefault engineRead)" by code_simp
  have h3: "readPolicy optsDefault \<noteq> RP_flowing" by (simp add: optsDefault_def)
  have p: "promise (promise_end optsDefault engineRead) = Fulfilled Undefined" by code_simp
  have r: "registered (stream1 (promise_end optsDefault engineRead)) = []" by code_simp
  have n: "state1 (step optsDefault (Emit Stream1 ''close'' []) engineRead) \<noteq> state1 engineRead"
    by code_simp
  from settled_inert[OF h1 h2, of "Emit Stream1 ''close'' []"] h1 h2 h3 p r n show ?thesis
    by simp
qed

end
